theory Spec2Isabelle
  imports Main
begin

section \<open>Data model (chess3d-core.py)\<close>

text \<open>
  The enums \<open>PieceType\<close> and \<open>Color\<close> are datatypes, the dataclasses \<open>Piece\<close>,
  \<open>Position\<close> and \<open>Move\<close> are records. The coordinates of a \<open>Position\<close> are Python
  integers, so they are \<open>int\<close>: nothing in the dataclass restricts them to the board.
  The field \<open>type\<close> of \<open>Piece\<close> is called \<open>ptype\<close> here.
\<close>

datatype PieceType = PAWN | KNIGHT | BISHOP | ROOK | QUEEN | KING

datatype Color = WHITE | BLACK

record Piece =
  ptype :: PieceType
  color :: Color

record Position =
  level :: int
  rank :: int
  "file" :: int

record Move =
  from_pos :: Position
  to_pos :: Position
  promotion :: "PieceType option"

text \<open>
  The only place where the modelled code can raise is the indexing of the numpy array
  with an integer outside it. \<open>IndexError\<close> stands for the exception raised there:
  numpy's \<open>IndexError\<close>, and for an integer too large for a machine index its
  \<open>OverflowError\<close>, which the model does not tell apart. A function that can raise
  returns \<open>error + 'a\<close>.
\<close>

datatype error = IndexError

fun andthen :: "error + 'a \<Rightarrow> ('a \<Rightarrow> error + 'b) \<Rightarrow> error + 'b" where
  "andthen (Inl e) f = Inl e"
| "andthen (Inr x) f = f x"

text \<open>
  The board is the numpy array of shape \<open>(3, 8, 8)\<close> holding \<open>None\<close> or a \<open>Piece\<close>:
  a function from the cell (three natural numbers, the normalised indices) to
  \<open>Piece option\<close>. Only cells below \<open>(3, 8, 8)\<close> are ever read or written.
  \<open>move_history\<close> is the Python list, newest entry last.
\<close>

type_synonym cell = "nat \<times> nat \<times> nat"

record Chess3D =
  board :: "cell \<Rightarrow> Piece option"
  current_player :: Color
  move_history :: "(Move \<times> Piece option) list"

text \<open>
  numpy indexing of an axis of size \<open>n\<close> with the integer \<open>i\<close>: \<open>0 \<le> i < n\<close> is the
  index itself, \<open>-n \<le> i < 0\<close> counts from the end, anything else raises (which
  exception is not modelled beyond the one constructor of \<open>error\<close>).
\<close>

definition axis_index :: "nat \<Rightarrow> int \<Rightarrow> error + nat" where
  "axis_index n i =
     (if 0 \<le> i \<and> i < int n then Inr (nat i)
      else if - int n \<le> i \<and> i < 0 then Inr (nat (i + int n))
      else Inl IndexError)"

definition cell_index :: "Position \<Rightarrow> error + cell" where
  "cell_index pos =
     andthen (axis_index 3 (level pos)) (\<lambda>l.
     andthen (axis_index 8 (rank pos)) (\<lambda>r.
     andthen (axis_index 8 (file pos)) (\<lambda>f. Inr (l, r, f))))"

definition get_piece :: "Chess3D \<Rightarrow> Position \<Rightarrow> error + Piece option" where
  "get_piece s pos = andthen (cell_index pos) (\<lambda>c. Inr (board s c))"

definition set_piece :: "Chess3D \<Rightarrow> Position \<Rightarrow> Piece option \<Rightarrow> error + Chess3D" where
  "set_piece s pos piece =
     andthen (cell_index pos) (\<lambda>c. Inr (s\<lparr>board := (board s)(c := piece)\<rparr>))"

definition is_valid_position :: "Position \<Rightarrow> bool" where
  "is_valid_position pos =
     (0 \<le> level pos \<and> level pos < 3 \<and> 0 \<le> rank pos \<and> rank pos < 8 \<and>
      0 \<le> file pos \<and> file pos < 8)"

definition other_color :: "Color \<Rightarrow> Color" where
  "other_color c = (if c = WHITE then BLACK else WHITE)"

section \<open>Move generator\<close>

text \<open>
  A loop \<open>for x in xs: ... moves.append(...)\<close> whose body does not read \<open>moves\<close>
  collects the moves of each round in order; the first exception ends it.
\<close>

fun collect :: "('a \<Rightarrow> error + 'b list) \<Rightarrow> 'a list \<Rightarrow> error + 'b list" where
  "collect f [] = Inr []"
| "collect f (x # xs) =
     andthen (f x) (\<lambda>ms. andthen (collect f xs) (\<lambda>rest. Inr (ms @ rest)))"

definition shifted :: "Position \<Rightarrow> int \<Rightarrow> int \<Rightarrow> int \<Rightarrow> Position" where
  "shifted pos dl dr df =
     \<lparr>level = level pos + dl, rank = rank pos + dr, file = file pos + df\<rparr>"

definition mk_move :: "Position \<Rightarrow> Position \<Rightarrow> Move" where
  "mk_move pos new_pos = \<lparr>from_pos = pos, to_pos = new_pos, promotion = None\<rparr>"

definition last_rank :: "Position \<Rightarrow> Piece \<Rightarrow> bool" where
  "last_rank new_pos piece =
     ((rank new_pos = 7 \<and> color piece = WHITE) \<or> (rank new_pos = 0 \<and> color piece = BLACK))"

definition pawn_arrivals :: "Position \<Rightarrow> Position \<Rightarrow> Piece \<Rightarrow> Move list" where
  "pawn_arrivals pos new_pos piece =
     (if last_rank new_pos piece
      then map (\<lambda>promotion_type.
                  \<lparr>from_pos = pos, to_pos = new_pos, promotion = Some promotion_type\<rparr>)
             [QUEEN, ROOK, BISHOP, KNIGHT]
      else [mk_move pos new_pos])"

definition pawn_double :: "Chess3D \<Rightarrow> Position \<Rightarrow> int \<Rightarrow> int \<Rightarrow> error + Move list" where
  "pawn_double s pos direction start_rank =
     (if rank pos = start_rank
      then (let new_pos = shifted pos 0 (2 * direction) 0 in
            if is_valid_position new_pos
            then andthen (get_piece s new_pos) (\<lambda>target.
                   Inr (if target = None then [mk_move pos new_pos] else []))
            else Inr [])
      else Inr [])"

definition pawn_capture :: "Chess3D \<Rightarrow> Position \<Rightarrow> Piece \<Rightarrow> int \<Rightarrow> int \<Rightarrow> error + Move list" where
  "pawn_capture s pos piece direction file_offset =
     (let new_pos = shifted pos 0 direction file_offset in
      if is_valid_position new_pos
      then andthen (get_piece s new_pos) (\<lambda>target.
             case target of
               None \<Rightarrow> Inr []
             | Some t \<Rightarrow>
                 Inr (if color t \<noteq> color piece then pawn_arrivals pos new_pos piece else []))
      else Inr [])"

definition get_pawn_moves :: "Chess3D \<Rightarrow> Position \<Rightarrow> Piece \<Rightarrow> error + Move list" where
  "get_pawn_moves s pos piece =
     (let direction = (if color piece = WHITE then 1 else - 1);
          start_rank = (if color piece = WHITE then 1 else 6);
          new_pos = shifted pos 0 direction 0
      in andthen
           (if is_valid_position new_pos
            then andthen (get_piece s new_pos) (\<lambda>target.
                   if target = None
                   then andthen (pawn_double s pos direction start_rank) (\<lambda>double.
                          Inr (pawn_arrivals pos new_pos piece @ double))
                   else Inr [])
            else Inr [])
           (\<lambda>forward.
              andthen (collect (pawn_capture s pos piece direction) [- 1, 1]) (\<lambda>captures.
                Inr (forward @ captures))))"

text \<open>
  The body shared by the knight, the king and the diagonal level-crossing moves:
  a candidate cell is kept when it is on the board and empty or held by the enemy.
\<close>

definition step_to :: "Chess3D \<Rightarrow> Position \<Rightarrow> Piece \<Rightarrow> Position \<Rightarrow> error + Move list" where
  "step_to s pos piece new_pos =
     (if is_valid_position new_pos
      then andthen (get_piece s new_pos) (\<lambda>target.
             case target of
               None \<Rightarrow> Inr [mk_move pos new_pos]
             | Some t \<Rightarrow> Inr (if color t \<noteq> color piece then [mk_move pos new_pos] else []))
      else Inr [])"

definition get_knight_moves :: "Chess3D \<Rightarrow> Position \<Rightarrow> Piece \<Rightarrow> error + Move list" where
  "get_knight_moves s pos piece =
     collect (\<lambda>(rank_offset, file_offset).
                step_to s pos piece (shifted pos 0 rank_offset file_offset))
       [(2, 1), (1, 2), (- 1, 2), (- 2, 1), (- 2, - 1), (- 1, - 2), (1, - 2), (2, - 1)]"

text \<open>
  One direction of a sliding piece: the inner loop over \<open>distance\<close>, which \<open>break\<close>
  leaves at the board edge, after an enemy cell and before a friendly one.
\<close>

fun slide :: "Chess3D \<Rightarrow> Position \<Rightarrow> Piece \<Rightarrow> int \<times> int \<Rightarrow> int list \<Rightarrow> error + Move list" where
  "slide s pos piece direction [] = Inr []"
| "slide s pos piece direction (distance # farther) =
     (let new_pos = shifted pos 0 (fst direction * distance) (snd direction * distance) in
      if \<not> is_valid_position new_pos then Inr []
      else andthen (get_piece s new_pos) (\<lambda>target.
             case target of
               None \<Rightarrow> andthen (slide s pos piece direction farther) (\<lambda>rest.
                         Inr (mk_move pos new_pos # rest))
             | Some t \<Rightarrow> Inr (if color t \<noteq> color piece then [mk_move pos new_pos] else [])))"

definition get_sliding_moves ::
  "Chess3D \<Rightarrow> Position \<Rightarrow> Piece \<Rightarrow> (int \<times> int) list \<Rightarrow> error + Move list" where
  "get_sliding_moves s pos piece directions =
     collect (\<lambda>direction. slide s pos piece direction [1, 2, 3, 4, 5, 6, 7]) directions"

definition get_bishop_moves :: "Chess3D \<Rightarrow> Position \<Rightarrow> Piece \<Rightarrow> error + Move list" where
  "get_bishop_moves s pos piece =
     get_sliding_moves s pos piece [(1, 1), (1, - 1), (- 1, 1), (- 1, - 1)]"

definition get_rook_moves :: "Chess3D \<Rightarrow> Position \<Rightarrow> Piece \<Rightarrow> error + Move list" where
  "get_rook_moves s pos piece =
     get_sliding_moves s pos piece [(0, 1), (1, 0), (0, - 1), (- 1, 0)]"

definition get_queen_moves :: "Chess3D \<Rightarrow> Position \<Rightarrow> Piece \<Rightarrow> error + Move list" where
  "get_queen_moves s pos piece =
     get_sliding_moves s pos piece
       [(0, 1), (1, 0), (0, - 1), (- 1, 0), (1, 1), (1, - 1), (- 1, 1), (- 1, - 1)]"

definition get_king_moves :: "Chess3D \<Rightarrow> Position \<Rightarrow> Piece \<Rightarrow> error + Move list" where
  "get_king_moves s pos piece =
     collect (\<lambda>direction.
                step_to s pos piece (shifted pos 0 (fst direction) (snd direction)))
       [(0, 1), (1, 0), (0, - 1), (- 1, 0), (1, 1), (1, - 1), (- 1, 1), (- 1, - 1)]"

text \<open>
  The vertical step of \<open>_get_3d_moves\<close> reads the board without asking
  \<open>is_valid_position\<close> first.
\<close>

definition vertical_to :: "Chess3D \<Rightarrow> Position \<Rightarrow> Piece \<Rightarrow> Position \<Rightarrow> error + Move list" where
  "vertical_to s pos piece new_pos =
     andthen (get_piece s new_pos) (\<lambda>target.
       case target of
         None \<Rightarrow> Inr [mk_move pos new_pos]
       | Some t \<Rightarrow> Inr (if color t \<noteq> color piece then [mk_move pos new_pos] else []))"

definition diagonals :: "(int \<times> int) list" where
  "diagonals = [(1, 1), (1, - 1), (- 1, 1), (- 1, - 1)]"

definition get_3d_moves :: "Chess3D \<Rightarrow> Position \<Rightarrow> Piece \<Rightarrow> error + Move list" where
  "get_3d_moves s pos piece =
     (if ptype piece = KNIGHT then
        (let level_offsets = (if level pos < 2 then [1] else []) @
                             (if level pos > 0 then [- 1] else [])
         in collect (\<lambda>level_offset.
              collect (\<lambda>(rank_offset, file_offset).
                         step_to s pos piece (shifted pos level_offset rank_offset file_offset))
                diagonals)
              level_offsets)
      else if ptype piece = BISHOP \<or> ptype piece = QUEEN then
        andthen
          (if level pos < 2
           then collect (\<lambda>(rank_offset, file_offset).
                           step_to s pos piece (shifted pos 1 rank_offset file_offset))
                  diagonals
           else Inr [])
          (\<lambda>up.
             andthen
               (if level pos > 0
                then collect (\<lambda>(rank_offset, file_offset).
                                step_to s pos piece (shifted pos (- 1) rank_offset file_offset))
                       diagonals
                else Inr [])
               (\<lambda>down. Inr (up @ down)))
      else if ptype piece = ROOK \<or> ptype piece = QUEEN then
        andthen
          (if level pos < 2 then vertical_to s pos piece (shifted pos 1 0 0) else Inr [])
          (\<lambda>up.
             andthen
               (if level pos > 0 then vertical_to s pos piece (shifted pos (- 1) 0 0)
                else Inr [])
               (\<lambda>down. Inr (up @ down)))
      else Inr [])"

definition get_valid_moves :: "Chess3D \<Rightarrow> Position \<Rightarrow> error + Move list" where
  "get_valid_moves s pos =
     andthen (get_piece s pos) (\<lambda>found.
       case found of
         None \<Rightarrow> Inr []
       | Some piece \<Rightarrow>
           andthen
             (case ptype piece of
                PAWN \<Rightarrow> get_pawn_moves s pos piece
              | KNIGHT \<Rightarrow> get_knight_moves s pos piece
              | BISHOP \<Rightarrow> get_bishop_moves s pos piece
              | ROOK \<Rightarrow> get_rook_moves s pos piece
              | QUEEN \<Rightarrow> get_queen_moves s pos piece
              | KING \<Rightarrow> get_king_moves s pos piece)
             (\<lambda>moves.
                andthen (get_3d_moves s pos piece) (\<lambda>moves3d. Inr (moves @ moves3d))))"

section \<open>Applying and undoing moves\<close>

text \<open>
  \<open>make_move\<close> and \<open>undo_move\<close> mutate the game and return a bool: the model returns
  the bool with the new game. The promotion test reads \<open>move.promotion\<close> for truth
  (every enum member is true, \<open>None\<close> is false).
\<close>

definition promoted :: "Move \<Rightarrow> Piece \<Rightarrow> Piece option" where
  "promoted move piece =
     (case promotion move of
        None \<Rightarrow> None
      | Some t \<Rightarrow>
          if ptype piece = PAWN \<and>
             ((color piece = WHITE \<and> rank (to_pos move) = 7) \<or>
              (color piece = BLACK \<and> rank (to_pos move) = 0))
          then Some \<lparr>ptype = t, color = color piece\<rparr>
          else None)"

definition make_move :: "Chess3D \<Rightarrow> Move \<Rightarrow> error + (bool \<times> Chess3D)" where
  "make_move s move =
     andthen (get_piece s (from_pos move)) (\<lambda>found.
       case found of
         None \<Rightarrow> Inr (False, s)
       | Some piece \<Rightarrow>
           if color piece \<noteq> current_player s then Inr (False, s)
           else
             andthen (get_valid_moves s (from_pos move)) (\<lambda>valid_moves.
               if move \<notin> set valid_moves then Inr (False, s)
               else
                 andthen (get_piece s (to_pos move)) (\<lambda>captured_piece.
                 andthen (set_piece s (to_pos move) (Some piece)) (\<lambda>s1.
                 andthen (set_piece s1 (from_pos move) None) (\<lambda>s2.
                 andthen (case promoted move piece of
                            None \<Rightarrow> Inr s2
                          | Some q \<Rightarrow> set_piece s2 (to_pos move) (Some q)) (\<lambda>s3.
                   Inr (True,
                        s3\<lparr>move_history := move_history s3 @ [(move, captured_piece)],
                           current_player := other_color (current_player s3)\<rparr>)))))))"

definition undo_move :: "Chess3D \<Rightarrow> error + (bool \<times> Chess3D)" where
  "undo_move s =
     (if move_history s = [] then Inr (False, s)
      else
        (let (move, captured_piece) = last (move_history s);
             s0 = s\<lparr>move_history := butlast (move_history s)\<rparr>
         in andthen (get_piece s0 (to_pos move)) (\<lambda>piece.
            andthen (set_piece s0 (from_pos move) piece) (\<lambda>s1.
            andthen (set_piece s1 (to_pos move) captured_piece) (\<lambda>s2.
              Inr (True, s2\<lparr>current_player := other_color (current_player s2)\<rparr>))))))"

section \<open>Check and checkmate\<close>

text \<open>
  The three nested loops \<open>for level in range(3): for rank in range(8): for file in
  range(8)\<close> visit the cells in the order of \<open>all_cells\<close>. \<open>position_of\<close> is the
  \<open>Position(level, rank, file)\<close> built from the loop variables.
\<close>

definition all_cells :: "cell list" where
  "all_cells =
     concat (map (\<lambda>l. concat (map (\<lambda>r. map (\<lambda>f. (l, r, f)) [0..<8]) [0..<8])) [0..<3])"

definition position_of :: "cell \<Rightarrow> Position" where
  "position_of c =
     (case c of (l, r, f) \<Rightarrow> \<lparr>level = int l, rank = int r, file = int f\<rparr>)"

definition is_king_of :: "Color \<Rightarrow> Piece option \<Rightarrow> bool" where
  "is_king_of c found =
     (case found of None \<Rightarrow> False | Some piece \<Rightarrow> ptype piece = KING \<and> color piece = c)"

text \<open>
  The search for the king leaves all three loops at the first king found, so it
  returns the first cell of \<open>all_cells\<close> holding one (read with \<open>self.board[...]\<close>).
\<close>

definition find_king :: "Chess3D \<Rightarrow> Color \<Rightarrow> Position option" where
  "find_king s c =
     map_option position_of (find (\<lambda>cell. is_king_of c (board s cell)) all_cells)"

fun attacked :: "Chess3D \<Rightarrow> Color \<Rightarrow> Position \<Rightarrow> cell list \<Rightarrow> error + bool" where
  "attacked s opponent_color king_pos [] = Inr False"
| "attacked s opponent_color king_pos (c # cells) =
     (let pos = position_of c in
      andthen (get_piece s pos) (\<lambda>found.
        case found of
          None \<Rightarrow> attacked s opponent_color king_pos cells
        | Some piece \<Rightarrow>
            if color piece = opponent_color
            then andthen (get_valid_moves s pos) (\<lambda>moves.
                   if list_ex (\<lambda>move. to_pos move = king_pos) moves then Inr True
                   else attacked s opponent_color king_pos cells)
            else attacked s opponent_color king_pos cells))"

definition is_check :: "Chess3D \<Rightarrow> Color \<Rightarrow> error + bool" where
  "is_check s c =
     (case find_king s c of
        None \<Rightarrow> Inr False
      | Some king_pos \<Rightarrow> attacked s (other_color c) king_pos all_cells)"

text \<open>
  \<open>is_checkmate\<close> tries every move of every piece of the colour on the board itself:
  the game is threaded through the trials. \<open>try_moves\<close> is the loop over the moves of
  one piece; its bool says that a trial left the king out of check, where the source
  returns \<open>False\<close> at once.
\<close>

fun try_moves ::
  "Chess3D \<Rightarrow> Color \<Rightarrow> Position \<Rightarrow> Piece \<Rightarrow> Move list \<Rightarrow> error + (bool \<times> Chess3D)" where
  "try_moves s c pos piece [] = Inr (False, s)"
| "try_moves s c pos piece (move # moves) =
     andthen (get_piece s (to_pos move)) (\<lambda>captured_piece.
     andthen (set_piece s (to_pos move) (Some piece)) (\<lambda>s1.
     andthen (set_piece s1 pos None) (\<lambda>s2.
     andthen (is_check s2 c) (\<lambda>still_in_check.
     andthen (set_piece s2 pos (Some piece)) (\<lambda>s3.
     andthen (set_piece s3 (to_pos move) captured_piece) (\<lambda>s4.
       if \<not> still_in_check then Inr (True, s4)
       else try_moves s4 c pos piece moves))))))"

fun try_cells :: "Chess3D \<Rightarrow> Color \<Rightarrow> cell list \<Rightarrow> error + (bool \<times> Chess3D)" where
  "try_cells s c [] = Inr (True, s)"
| "try_cells s c (cl # cells) =
     (let pos = position_of cl in
      andthen (get_piece s pos) (\<lambda>found.
        case found of
          None \<Rightarrow> try_cells s c cells
        | Some piece \<Rightarrow>
            if color piece = c
            then andthen (get_valid_moves s pos) (\<lambda>moves.
                 andthen (try_moves s c pos piece moves) (\<lambda>(escaped, s').
                   if escaped then Inr (False, s') else try_cells s' c cells))
            else try_cells s c cells))"

definition is_checkmate :: "Chess3D \<Rightarrow> Color \<Rightarrow> error + (bool \<times> Chess3D)" where
  "is_checkmate s c =
     andthen (is_check s c) (\<lambda>in_check.
       if \<not> in_check then Inr (False, s) else try_cells s c all_cells)"

section \<open>Evaluation (ai-engine.py)\<close>

definition PIECE_VALUES :: "PieceType \<Rightarrow> int" where
  "PIECE_VALUES t =
     (case t of PAWN \<Rightarrow> 100 | KNIGHT \<Rightarrow> 320 | BISHOP \<Rightarrow> 330 | ROOK \<Rightarrow> 500
      | QUEEN \<Rightarrow> 900 | KING \<Rightarrow> 20000)"

definition PAWN_TABLE :: "int list list" where
  "PAWN_TABLE =
     [[0, 0, 0, 0, 0, 0, 0, 0],
      [50, 50, 50, 50, 50, 50, 50, 50],
      [10, 10, 20, 30, 30, 20, 10, 10],
      [5, 5, 10, 25, 25, 10, 5, 5],
      [0, 0, 0, 20, 20, 0, 0, 0],
      [5, - 5, - 10, 0, 0, - 10, - 5, 5],
      [5, 10, 10, - 20, - 20, 10, 10, 5],
      [0, 0, 0, 0, 0, 0, 0, 0]]"

definition KNIGHT_TABLE :: "int list list" where
  "KNIGHT_TABLE =
     [[- 50, - 40, - 30, - 30, - 30, - 30, - 40, - 50],
      [- 40, - 20, 0, 0, 0, 0, - 20, - 40],
      [- 30, 0, 10, 15, 15, 10, 0, - 30],
      [- 30, 5, 15, 20, 20, 15, 5, - 30],
      [- 30, 0, 15, 20, 20, 15, 0, - 30],
      [- 30, 5, 10, 15, 15, 10, 5, - 30],
      [- 40, - 20, 0, 5, 5, 0, - 20, - 40],
      [- 50, - 40, - 30, - 30, - 30, - 30, - 40, - 50]]"

definition BISHOP_TABLE :: "int list list" where
  "BISHOP_TABLE =
     [[- 20, - 10, - 10, - 10, - 10, - 10, - 10, - 20],
      [- 10, 0, 0, 0, 0, 0, 0, - 10],
      [- 10, 0, 10, 10, 10, 10, 0, - 10],
      [- 10, 5, 5, 10, 10, 5, 5, - 10],
      [- 10, 0, 5, 10, 10, 5, 0, - 10],
      [- 10, 5, 5, 5, 5, 5, 5, - 10],
      [- 10, 0, 5, 0, 0, 5, 0, - 10],
      [- 20, - 10, - 10, - 10, - 10, - 10, - 10, - 20]]"

definition ROOK_TABLE :: "int list list" where
  "ROOK_TABLE =
     [[0, 0, 0, 0, 0, 0, 0, 0],
      [5, 10, 10, 10, 10, 10, 10, 5],
      [- 5, 0, 0, 0, 0, 0, 0, - 5],
      [- 5, 0, 0, 0, 0, 0, 0, - 5],
      [- 5, 0, 0, 0, 0, 0, 0, - 5],
      [- 5, 0, 0, 0, 0, 0, 0, - 5],
      [- 5, 0, 0, 0, 0, 0, 0, - 5],
      [0, 0, 0, 5, 5, 0, 0, 0]]"

definition QUEEN_TABLE :: "int list list" where
  "QUEEN_TABLE =
     [[- 20, - 10, - 10, - 5, - 5, - 10, - 10, - 20],
      [- 10, 0, 0, 0, 0, 0, 0, - 10],
      [- 10, 0, 5, 5, 5, 5, 0, - 10],
      [- 5, 0, 5, 5, 5, 5, 0, - 5],
      [0, 0, 5, 5, 5, 5, 0, - 5],
      [- 10, 5, 5, 5, 5, 5, 0, - 10],
      [- 10, 0, 5, 0, 0, 0, 0, - 10],
      [- 20, - 10, - 10, - 5, - 5, - 10, - 10, - 20]]"

definition KING_MIDDLE_TABLE :: "int list list" where
  "KING_MIDDLE_TABLE =
     [[- 30, - 40, - 40, - 50, - 50, - 40, - 40, - 30],
      [- 30, - 40, - 40, - 50, - 50, - 40, - 40, - 30],
      [- 30, - 40, - 40, - 50, - 50, - 40, - 40, - 30],
      [- 30, - 40, - 40, - 50, - 50, - 40, - 40, - 30],
      [- 20, - 30, - 30, - 40, - 40, - 30, - 30, - 20],
      [- 10, - 20, - 20, - 20, - 20, - 20, - 20, - 10],
      [20, 20, 0, 0, 0, 0, 20, 20],
      [20, 30, 10, 0, 0, 10, 30, 20]]"

definition KING_END_TABLE :: "int list list" where
  "KING_END_TABLE =
     [[- 50, - 40, - 30, - 20, - 20, - 30, - 40, - 50],
      [- 30, - 20, - 10, 0, 0, - 10, - 20, - 30],
      [- 30, - 10, 20, 30, 30, 20, - 10, - 30],
      [- 30, - 10, 30, 40, 40, 30, - 10, - 30],
      [- 30, - 10, 30, 40, 40, 30, - 10, - 30],
      [- 30, - 10, 20, 30, 30, 20, - 10, - 30],
      [- 30, - 30, 0, 0, 0, 0, - 30, - 30],
      [- 50, - 30, - 30, - 30, - 30, - 30, - 30, - 50]]"

text \<open>
  The loops of \<open>evaluate_position\<close> that add up a number over all cells. The table
  rows and columns are read at loop indices below 8, inside every table. The mobility
  loop adds the number of moves of each piece to \<open>white_mobility\<close> or to
  \<open>black_mobility\<close>: \<open>mobility game side\<close> is the share of one cell in the counter of
  \<open>side\<close>.
\<close>

fun sum_cells :: "(cell \<Rightarrow> error + int) \<Rightarrow> cell list \<Rightarrow> error + int" where
  "sum_cells f [] = Inr 0"
| "sum_cells f (c # cells) =
     andthen (f c) (\<lambda>x. andthen (sum_cells f cells) (\<lambda>rest. Inr (x + rest)))"

definition count_non_king :: "Chess3D \<Rightarrow> cell \<Rightarrow> error + int" where
  "count_non_king game c =
     andthen (get_piece game (position_of c)) (\<lambda>found.
       case found of
         None \<Rightarrow> Inr 0
       | Some piece \<Rightarrow> Inr (if ptype piece \<noteq> KING then 1 else 0))"

definition piece_score :: "Chess3D \<Rightarrow> bool \<Rightarrow> cell \<Rightarrow> error + int" where
  "piece_score game is_endgame c =
     (case c of (l, r, f) \<Rightarrow>
        andthen (get_piece game (position_of c)) (\<lambda>found.
          case found of
            None \<Rightarrow> Inr 0
          | Some piece \<Rightarrow>
              (let rank_mirror = (if color piece = BLACK then 7 - r else r);
                   positional =
                     (case ptype piece of
                        PAWN \<Rightarrow> PAWN_TABLE ! rank_mirror ! f
                      | KNIGHT \<Rightarrow> KNIGHT_TABLE ! rank_mirror ! f
                      | BISHOP \<Rightarrow> BISHOP_TABLE ! rank_mirror ! f
                      | ROOK \<Rightarrow> ROOK_TABLE ! rank_mirror ! f
                      | QUEEN \<Rightarrow> QUEEN_TABLE ! rank_mirror ! f
                      | KING \<Rightarrow>
                          if is_endgame then KING_END_TABLE ! rank_mirror ! f
                          else KING_MIDDLE_TABLE ! rank_mirror ! f);
                   v = PIECE_VALUES (ptype piece) + positional + (if l = 1 then 10 else 0)
               in Inr (if color piece = WHITE then v else - v))))"

definition mobility :: "Chess3D \<Rightarrow> Color \<Rightarrow> cell \<Rightarrow> error + int" where
  "mobility game side c =
     andthen (get_piece game (position_of c)) (\<lambda>found.
       case found of
         None \<Rightarrow> Inr 0
       | Some piece \<Rightarrow>
           andthen (get_valid_moves game (position_of c)) (\<lambda>moves.
             Inr (if color piece = side then int (length moves) else 0)))"

definition evaluate_position :: "Chess3D \<Rightarrow> error + (int \<times> Chess3D)" where
  "evaluate_position game =
     andthen (is_checkmate game WHITE) (\<lambda>(white_mated, g1).
       if white_mated then Inr (- 10000, g1)
       else
         andthen (is_checkmate g1 BLACK) (\<lambda>(black_mated, g2).
           if black_mated then Inr (10000, g2)
           else
             andthen (sum_cells (count_non_king g2) all_cells) (\<lambda>piece_count.
             andthen (sum_cells (piece_score g2 (piece_count \<le> 10)) all_cells) (\<lambda>material.
             andthen (sum_cells (mobility g2 WHITE) all_cells) (\<lambda>white_mobility.
             andthen (sum_cells (mobility g2 BLACK) all_cells) (\<lambda>black_mobility.
             andthen (is_check g2 WHITE) (\<lambda>white_checked.
             andthen (is_check g2 BLACK) (\<lambda>black_checked.
               Inr (material + (white_mobility - black_mobility) * 2
                      + (if white_checked then - 50 else 0)
                      + (if black_checked then 50 else 0),
                    g2)))))))))"

section \<open>Search\<close>

text \<open>
  The values of the search are Python integers and the floats \<open>float('-inf')\<close> and
  \<open>float('inf')\<close>, compared and combined with \<open>max\<close> and \<open>min\<close>.
\<close>

datatype score = NegInf | Fin int | PosInf

instantiation score :: linorder
begin

fun less_eq_score :: "score \<Rightarrow> score \<Rightarrow> bool" where
  "less_eq_score NegInf y = True"
| "less_eq_score (Fin a) NegInf = False"
| "less_eq_score (Fin a) (Fin b) = (a \<le> b)"
| "less_eq_score (Fin a) PosInf = True"
| "less_eq_score PosInf PosInf = True"
| "less_eq_score PosInf y = False"

definition less_score :: "score \<Rightarrow> score \<Rightarrow> bool" where
  "less_score x y = (x \<le> y \<and> \<not> y \<le> x)"

instance
proof
  fix x y z :: score
  show "(x < y) = (x \<le> y \<and> \<not> y \<le> x)" by (simp add: less_score_def)
  show "x \<le> x" by (cases x) simp_all
  show "x \<le> y \<Longrightarrow> y \<le> z \<Longrightarrow> x \<le> z" by (cases x; cases y; cases z) simp_all
  show "x \<le> y \<Longrightarrow> y \<le> x \<Longrightarrow> x = y" by (cases x; cases y) simp_all
  show "x \<le> y \<or> y \<le> x" by (cases x; cases y) auto
qed

end

text \<open>
  \<open>minimax\<close> without a time limit (\<open>time_limit = None\<close>); the counter
  \<open>nodes_evaluated\<close> is left out, it does not flow into any result. The depth is a
  natural number: the source counts it down to the test \<open>depth == 0\<close>.

  \<open>max_moves\<close> is the loop \<open>for move in moves\<close> of the maximizing branch and
  \<open>max_cells\<close> the three loops over the cells around it; \<open>child\<close> is the recursive
  call. Both return the game, \<open>value\<close> and \<open>alpha\<close>, with a bool that says that
  \<open>beta <= alpha\<close> ended the search (the \<open>return value\<close> inside the loop).
  \<open>min_moves\<close> and \<open>min_cells\<close> are the minimizing branch. The results of
  \<open>make_move\<close> and \<open>undo_move\<close> are dropped, as in the source.
\<close>

type_synonym child_search = "Chess3D \<Rightarrow> score \<Rightarrow> score \<Rightarrow> error + (score \<times> Chess3D)"

fun max_moves ::
  "child_search \<Rightarrow> Move list \<Rightarrow> Chess3D \<Rightarrow> score \<Rightarrow> score \<Rightarrow> score \<Rightarrow>
   error + (bool \<times> Chess3D \<times> score \<times> score)" where
  "max_moves child [] game value alpha beta = Inr (False, game, value, alpha)"
| "max_moves child (move # moves) game value alpha beta =
     andthen (make_move game move) (\<lambda>(made, g1).
     andthen (child g1 alpha beta) (\<lambda>(v, g2).
     andthen (undo_move g2) (\<lambda>(undone, g3).
       (let value' = max value v;
            alpha' = max alpha value'
        in if beta \<le> alpha' then Inr (True, g3, value', alpha')
           else max_moves child moves g3 value' alpha' beta))))"

fun max_cells ::
  "child_search \<Rightarrow> cell list \<Rightarrow> Chess3D \<Rightarrow> score \<Rightarrow> score \<Rightarrow> score \<Rightarrow>
   error + (bool \<times> Chess3D \<times> score \<times> score)" where
  "max_cells child [] game value alpha beta = Inr (False, game, value, alpha)"
| "max_cells child (c # cells) game value alpha beta =
     (let pos = position_of c in
      andthen (get_piece game pos) (\<lambda>found.
        case found of
          None \<Rightarrow> max_cells child cells game value alpha beta
        | Some piece \<Rightarrow>
            if color piece = WHITE
            then andthen (get_valid_moves game pos) (\<lambda>moves.
                 andthen (max_moves child moves game value alpha beta)
                   (\<lambda>(cut, g, value', alpha').
                      if cut then Inr (True, g, value', alpha')
                      else max_cells child cells g value' alpha' beta))
            else max_cells child cells game value alpha beta))"

fun min_moves ::
  "child_search \<Rightarrow> Move list \<Rightarrow> Chess3D \<Rightarrow> score \<Rightarrow> score \<Rightarrow> score \<Rightarrow>
   error + (bool \<times> Chess3D \<times> score \<times> score)" where
  "min_moves child [] game value alpha beta = Inr (False, game, value, beta)"
| "min_moves child (move # moves) game value alpha beta =
     andthen (make_move game move) (\<lambda>(made, g1).
     andthen (child g1 alpha beta) (\<lambda>(v, g2).
     andthen (undo_move g2) (\<lambda>(undone, g3).
       (let value' = min value v;
            beta' = min beta value'
        in if beta' \<le> alpha then Inr (True, g3, value', beta')
           else min_moves child moves g3 value' alpha beta'))))"

fun min_cells ::
  "child_search \<Rightarrow> cell list \<Rightarrow> Chess3D \<Rightarrow> score \<Rightarrow> score \<Rightarrow> score \<Rightarrow>
   error + (bool \<times> Chess3D \<times> score \<times> score)" where
  "min_cells child [] game value alpha beta = Inr (False, game, value, beta)"
| "min_cells child (c # cells) game value alpha beta =
     (let pos = position_of c in
      andthen (get_piece game pos) (\<lambda>found.
        case found of
          None \<Rightarrow> min_cells child cells game value alpha beta
        | Some piece \<Rightarrow>
            if color piece = BLACK
            then andthen (get_valid_moves game pos) (\<lambda>moves.
                 andthen (min_moves child moves game value alpha beta)
                   (\<lambda>(cut, g, value', beta').
                      if cut then Inr (True, g, value', beta')
                      else min_cells child cells g value' alpha beta'))
            else min_cells child cells game value alpha beta))"

primrec minimax ::
  "nat \<Rightarrow> Chess3D \<Rightarrow> score \<Rightarrow> score \<Rightarrow> bool \<Rightarrow> error + (score \<times> Chess3D)" where
  "minimax 0 game alpha beta maximizing =
     andthen (evaluate_position game) (\<lambda>(v, g). Inr (Fin v, g))"
| "minimax (Suc depth) game alpha beta maximizing =
     (if maximizing
      then andthen
             (max_cells (\<lambda>g a b. minimax depth g a b False) all_cells game NegInf alpha beta)
             (\<lambda>(cut, g, value, alpha'). Inr (value, g))
      else andthen
             (min_cells (\<lambda>g a b. minimax depth g a b True) all_cells game PosInf alpha beta)
             (\<lambda>(cut, g, value, beta'). Inr (value, g)))"

text \<open>
  \<open>get_best_move\<close>: \<open>root_moves\<close> collects the moves of every piece of \<open>color\<close>,
  \<open>order\<close> stands for \<open>random.shuffle\<close> (the list it leaves behind), \<open>root_loop\<close>
  is the loop over the shuffled moves on the private copy \<open>temp_game\<close>. The result is
  \<open>best_move\<close> together with \<open>best_value\<close>, which the source prints.
  The parameter \<open>depth\<close> is \<open>max_depth - 1\<close>, the depth handed to \<open>minimax\<close>:
  \<open>max_depth\<close> is at least 1 (with \<open>max_depth = 0\<close> the source would call
  \<open>minimax\<close> with \<open>-1\<close>, which never meets \<open>depth == 0\<close>). The time limit, the
  clock and the printing are left out.
\<close>

definition moves_of_color :: "Chess3D \<Rightarrow> Color \<Rightarrow> cell \<Rightarrow> error + Move list" where
  "moves_of_color game c cl =
     (let pos = position_of cl in
      andthen (get_piece game pos) (\<lambda>found.
        case found of
          None \<Rightarrow> Inr []
        | Some piece \<Rightarrow> if color piece = c then get_valid_moves game pos else Inr []))"

definition root_moves :: "Chess3D \<Rightarrow> Color \<Rightarrow> error + Move list" where
  "root_moves game c = collect (moves_of_color game c) all_cells"

fun root_loop ::
  "nat \<Rightarrow> Color \<Rightarrow> Move list \<Rightarrow> Chess3D \<Rightarrow> Move option \<Rightarrow> score \<Rightarrow> score \<Rightarrow> score \<Rightarrow>
   error + (Move option \<times> score)" where
  "root_loop depth c [] temp_game best_move best_value alpha beta =
     Inr (best_move, best_value)"
| "root_loop depth c (move # moves) temp_game best_move best_value alpha beta =
     andthen (get_piece temp_game (to_pos move)) (\<lambda>captured_piece.
     andthen (get_piece temp_game (from_pos move)) (\<lambda>piece.
     andthen (make_move temp_game move) (\<lambda>(made, g1).
       if c = WHITE
       then andthen (minimax depth g1 alpha beta False) (\<lambda>(value, g2).
            andthen (undo_move g2) (\<lambda>(undone, g3).
              root_loop depth c moves g3
                (if value > best_value then Some move else best_move)
                (if value > best_value then value else best_value)
                (max alpha value) beta))
       else andthen (minimax depth g1 alpha beta True) (\<lambda>(value, g2).
            andthen (undo_move g2) (\<lambda>(undone, g3).
              root_loop depth c moves g3
                (if value < best_value then Some move else best_move)
                (if value < best_value then value else best_value)
                alpha (min beta value))))))"

definition get_best_move ::
  "Chess3D \<Rightarrow> nat \<Rightarrow> (Move list \<Rightarrow> Move list) \<Rightarrow> Color option \<Rightarrow>
   error + (Move option \<times> score)" where
  "get_best_move game depth order color_arg =
     (let c = (case color_arg of None \<Rightarrow> current_player game | Some c' \<Rightarrow> c') in
      andthen (root_moves game c) (\<lambda>all_moves.
        root_loop depth c (order all_moves) game None
          (if c = WHITE then NegInf else PosInf) NegInf PosInf))"

section \<open>The starting position\<close>

definition piece_order :: "PieceType list" where
  "piece_order = [ROOK, KNIGHT, BISHOP, QUEEN, KING, BISHOP, KNIGHT, ROOK]"

definition setup_standard_board ::
  "nat \<Rightarrow> Color \<Rightarrow> (cell \<Rightarrow> Piece option) \<Rightarrow> (cell \<Rightarrow> Piece option)" where
  "setup_standard_board l c b =
     (let back_rank = (if c = WHITE then 0 else 7);
          pawn_rank = (if c = WHITE then 1 else 6)
      in fold (\<lambda>f b'.
                 b'((l, back_rank, f) := Some \<lparr>ptype = piece_order ! f, color = c\<rparr>,
                    (l, pawn_rank, f) := Some \<lparr>ptype = PAWN, color = c\<rparr>))
           [0..<8] b)"

definition reset :: "Chess3D" where
  "reset =
     \<lparr>board = setup_standard_board 2 BLACK (setup_standard_board 0 WHITE (\<lambda>c. None)),
      current_player = WHITE,
      move_history = []\<rparr>"

section \<open>Notions used in the statements and proofs\<close>

text \<open>
  \<open>cell_of\<close> is the cell an in-bounds position indexes. \<open>target_ok\<close> says that the
  destination can be read and is empty or holds a piece of the other colour.
  \<open>plain_fact\<close> is what holds of every move of a piece that is not a pawn,
  \<open>pawn_fact\<close> of every pawn move; \<open>move_fact\<close> chooses between them.
\<close>

definition cell_of :: "Position \<Rightarrow> cell" where
  "cell_of pos = (nat (level pos), nat (rank pos), nat (file pos))"

definition target_ok :: "Chess3D \<Rightarrow> Piece \<Rightarrow> Position \<Rightarrow> bool" where
  "target_ok s piece p =
     (case get_piece s p of
        Inl e \<Rightarrow> False
      | Inr None \<Rightarrow> True
      | Inr (Some t) \<Rightarrow> color t \<noteq> color piece)"

definition plain_fact :: "Chess3D \<Rightarrow> Position \<Rightarrow> Piece \<Rightarrow> Move \<Rightarrow> bool" where
  "plain_fact s pos piece m =
     (from_pos m = pos \<and> promotion m = None \<and> target_ok s piece (to_pos m) \<and>
      (is_valid_position pos \<longrightarrow> is_valid_position (to_pos m)))"

definition pawn_step :: "Position \<Rightarrow> Piece \<Rightarrow> Position \<Rightarrow> bool" where
  "pawn_step pos piece p =
     (if color piece = WHITE
      then rank p = rank pos + 1 \<or> (rank pos = 1 \<and> rank p = 3)
      else rank p = rank pos - 1 \<or> (rank pos = 6 \<and> rank p = 4))"

definition pawn_fact :: "Chess3D \<Rightarrow> Position \<Rightarrow> Piece \<Rightarrow> Move \<Rightarrow> bool" where
  "pawn_fact s pos piece m =
     (from_pos m = pos \<and> target_ok s piece (to_pos m) \<and> is_valid_position (to_pos m) \<and>
      pawn_step pos piece (to_pos m) \<and>
      (promotion m \<noteq> None \<longleftrightarrow> last_rank (to_pos m) piece))"

definition move_fact :: "Chess3D \<Rightarrow> Position \<Rightarrow> Piece \<Rightarrow> Move \<Rightarrow> bool" where
  "move_fact s pos piece m =
     (if ptype piece = PAWN then pawn_fact s pos piece m else plain_fact s pos piece m)"

section \<open>Example games\<close>

text \<open>
  Small games on which the theorems below are tried. In \<open>promotion_game\<close> a white pawn
  on the seventh rank can capture a rook on the eighth. In \<open>white_mated_game\<close> the white
  king in the corner is shut in by its own pawns, none of which can move, and a black
  knight attacks it; \<open>black_mated_game\<close> is that position seen from the other side.
  \<open>off_board_move\<close> starts at level 3, which the board does not have.
\<close>

definition empty_board :: "cell \<Rightarrow> Piece option" where
  "empty_board = (\<lambda>c. None)"

definition promotion_game :: Chess3D where
  "promotion_game =
     \<lparr>board = empty_board((0, 6, 1) := Some \<lparr>ptype = PAWN, color = WHITE\<rparr>,
                          (0, 7, 2) := Some \<lparr>ptype = ROOK, color = BLACK\<rparr>),
      current_player = WHITE,
      move_history = []\<rparr>"

definition promotion_move :: Move where
  "promotion_move =
     \<lparr>from_pos = \<lparr>level = 0, rank = 6, file = 1\<rparr>,
      to_pos = \<lparr>level = 0, rank = 7, file = 2\<rparr>,
      promotion = Some QUEEN\<rparr>"

definition white_mated_game :: Chess3D where
  "white_mated_game =
     \<lparr>board = empty_board((0, 7, 0) := Some \<lparr>ptype = KING, color = WHITE\<rparr>,
                          (0, 7, 1) := Some \<lparr>ptype = PAWN, color = WHITE\<rparr>,
                          (0, 6, 0) := Some \<lparr>ptype = PAWN, color = WHITE\<rparr>,
                          (0, 6, 1) := Some \<lparr>ptype = PAWN, color = WHITE\<rparr>,
                          (0, 5, 1) := Some \<lparr>ptype = KNIGHT, color = BLACK\<rparr>),
      current_player = WHITE,
      move_history = []\<rparr>"

definition black_mated_game :: Chess3D where
  "black_mated_game =
     \<lparr>board = empty_board((0, 0, 0) := Some \<lparr>ptype = KING, color = BLACK\<rparr>,
                          (0, 0, 1) := Some \<lparr>ptype = PAWN, color = BLACK\<rparr>,
                          (0, 1, 0) := Some \<lparr>ptype = PAWN, color = BLACK\<rparr>,
                          (0, 1, 1) := Some \<lparr>ptype = PAWN, color = BLACK\<rparr>,
                          (0, 2, 1) := Some \<lparr>ptype = KNIGHT, color = WHITE\<rparr>),
      current_player = BLACK,
      move_history = []\<rparr>"

definition off_board_move :: Move where
  "off_board_move =
     \<lparr>from_pos = \<lparr>level = 3, rank = 1, file = 0\<rparr>,
      to_pos = \<lparr>level = 0, rank = 2, file = 0\<rparr>,
      promotion = None\<rparr>"

definition queen_home :: Position where
  "queen_home = \<lparr>level = 0, rank = 0, file = 3\<rparr>"

definition pawn_home :: Position where
  "pawn_home = \<lparr>level = 0, rank = 6, file = 1\<rparr>"

definition empty_cell_move :: Move where
  "empty_cell_move = mk_move \<lparr>level = 1, rank = 0, file = 0\<rparr> \<lparr>level = 1, rank = 1, file = 0\<rparr>"

definition wrong_side_move :: Move where
  "wrong_side_move = mk_move \<lparr>level = 0, rank = 7, file = 2\<rparr> \<lparr>level = 0, rank = 7, file = 3\<rparr>"

definition backward_move :: Move where
  "backward_move = mk_move pawn_home \<lparr>level = 0, rank = 5, file = 1\<rparr>"

definition knight_home :: Position where
  "knight_home = \<lparr>level = 0, rank = 0, file = 1\<rparr>"



section \<open>Exhaustive minimax, for comparison with the pruned search\<close>

text \<open>
  The reference the pruned search is compared with: minimax over the same moves in the
  same order, with the same evaluation at the leaves, and no bounds. \<open>all_moves\<close> is
  the enumeration of the moves of a colour (the list \<open>get_best_move\<close> builds, which
  is also the order in which \<open>minimax\<close> meets the moves), \<open>after_move\<close> the game
  \<open>make_move\<close> leaves, \<open>static_value\<close> the value of \<open>evaluate_position\<close>.
  \<open>exhaustive_best_move\<close> keeps the first move of the given order whose value is
  strictly better than the best so far, starting from the worst value.
\<close>

definition all_moves :: "Chess3D \<Rightarrow> Color \<Rightarrow> Move list" where
  "all_moves game c = (case root_moves game c of Inr ms \<Rightarrow> ms | Inl e \<Rightarrow> [])"

definition after_move :: "Chess3D \<Rightarrow> Move \<Rightarrow> Chess3D" where
  "after_move game move =
     (case make_move game move of Inr (made, g) \<Rightarrow> g | Inl e \<Rightarrow> game)"

definition static_value :: "Chess3D \<Rightarrow> score" where
  "static_value game = (case evaluate_position game of Inr (v, g) \<Rightarrow> Fin v | Inl e \<Rightarrow> Fin 0)"

primrec exhaustive_minimax :: "nat \<Rightarrow> Chess3D \<Rightarrow> bool \<Rightarrow> score" where
  "exhaustive_minimax 0 game maximizing = static_value game"
| "exhaustive_minimax (Suc depth) game maximizing =
     (if maximizing
      then fold (\<lambda>move value. max value (exhaustive_minimax depth (after_move game move) False))
             (all_moves game WHITE) NegInf
      else fold (\<lambda>move value. min value (exhaustive_minimax depth (after_move game move) True))
             (all_moves game BLACK) PosInf)"

fun pick_best ::
  "Color \<Rightarrow> (Move \<Rightarrow> score) \<Rightarrow> Move list \<Rightarrow> Move option \<Rightarrow> score \<Rightarrow> Move option \<times> score" where
  "pick_best c val [] best_move best_value = (best_move, best_value)"
| "pick_best c val (move # moves) best_move best_value =
     (if (if c = WHITE then val move > best_value else val move < best_value)
      then pick_best c val moves (Some move) (val move)
      else pick_best c val moves best_move best_value)"

definition exhaustive_best_move ::
  "Chess3D \<Rightarrow> nat \<Rightarrow> (Move list \<Rightarrow> Move list) \<Rightarrow> Color option \<Rightarrow> Move option \<times> score" where
  "exhaustive_best_move game depth order color_arg =
     (let c = (case color_arg of None \<Rightarrow> current_player game | Some c' \<Rightarrow> c') in
      pick_best c (\<lambda>move. exhaustive_minimax depth (after_move game move) (c \<noteq> WHITE))
        (order (all_moves game c)) None (if c = WHITE then NegInf else PosInf))"

text \<open>
  \<open>pawn_room k\<close>: no pawn can reach its last rank within \<open>k\<close> moves, counting the double
  step from the start rank as one. \<open>search_ready k game maximizing\<close>: the flag
  \<open>maximizing\<close> names the side to move, and the pawns have room for \<open>k\<close> moves.
\<close>

definition side_of :: "bool \<Rightarrow> Color" where
  "side_of maximizing = (if maximizing then WHITE else BLACK)"

definition pawn_room :: "nat \<Rightarrow> Chess3D \<Rightarrow> bool" where
  "pawn_room k game =
     (\<forall>l r f piece. l < 3 \<and> r < 8 \<and> f < 8 \<and> board game (l, r, f) = Some piece \<and>
                     ptype piece = PAWN \<longrightarrow>
        (if color piece = WHITE then max r 2 + k \<le> 6 else max (7 - r) 2 + k \<le> 6))"

definition search_ready :: "nat \<Rightarrow> Chess3D \<Rightarrow> bool \<Rightarrow> bool" where
  "search_ready k game maximizing =
     (current_player game = side_of maximizing \<and> pawn_room k game)"

text \<open>
  The pruned loops without the game: \<open>cv move alpha beta\<close> is the value the child search
  returns for \<open>move\<close> with the bounds \<open>alpha\<close> and \<open>beta\<close>. \<open>fits alpha beta x v\<close>
  relates the value \<open>v\<close> of a pruned search with bounds \<open>alpha < beta\<close> to the value
  \<open>x\<close> of the exhaustive search: exact between the bounds, a bound on \<open>x\<close> outside.
\<close>

fun ab_max ::
  "(Move \<Rightarrow> score \<Rightarrow> score \<Rightarrow> score) \<Rightarrow> Move list \<Rightarrow> score \<Rightarrow> score \<Rightarrow> score \<Rightarrow>
   bool \<times> score \<times> score" where
  "ab_max cv [] value alpha beta = (False, value, alpha)"
| "ab_max cv (move # moves) value alpha beta =
     (let value' = max value (cv move alpha beta);
          alpha' = max alpha value'
      in if beta \<le> alpha' then (True, value', alpha')
         else ab_max cv moves value' alpha' beta)"

fun ab_min ::
  "(Move \<Rightarrow> score \<Rightarrow> score \<Rightarrow> score) \<Rightarrow> Move list \<Rightarrow> score \<Rightarrow> score \<Rightarrow> score \<Rightarrow>
   bool \<times> score \<times> score" where
  "ab_min cv [] value alpha beta = (False, value, beta)"
| "ab_min cv (move # moves) value alpha beta =
     (let value' = min value (cv move alpha beta);
          beta' = min beta value'
      in if beta' \<le> alpha then (True, value', beta')
         else ab_min cv moves value' alpha beta')"

definition fits :: "score \<Rightarrow> score \<Rightarrow> score \<Rightarrow> score \<Rightarrow> bool" where
  "fits alpha beta x v =
     ((v \<le> alpha \<longrightarrow> x \<le> v) \<and> (beta \<le> v \<longrightarrow> v \<le> x) \<and> (alpha < v \<and> v < beta \<longrightarrow> v = x))"

definition cell_moves :: "Chess3D \<Rightarrow> Color \<Rightarrow> cell \<Rightarrow> Move list" where
  "cell_moves game c cl = (case moves_of_color game c cl of Inr ms \<Rightarrow> ms | Inl e \<Rightarrow> [])"

definition child_value :: "nat \<Rightarrow> Chess3D \<Rightarrow> bool \<Rightarrow> Move \<Rightarrow> score \<Rightarrow> score \<Rightarrow> score" where
  "child_value depth game maximizing move alpha beta =
     (case minimax depth (after_move game move) alpha beta maximizing of
        Inr (v, g) \<Rightarrow> v
      | Inl e \<Rightarrow> NegInf)"

text \<open>
  What a search leaves behind, read off its result: a cell of the board, the side to
  move, and the length of the history.
\<close>

definition cell_after :: "error + (score \<times> Chess3D) \<Rightarrow> cell \<Rightarrow> error + Piece option" where
  "cell_after r c = (case r of Inl e \<Rightarrow> Inl e | Inr (v, g) \<Rightarrow> Inr (board g c))"

definition player_after :: "error + (score \<times> Chess3D) \<Rightarrow> error + Color" where
  "player_after r = (case r of Inl e \<Rightarrow> Inl e | Inr (v, g) \<Rightarrow> Inr (current_player g))"

definition history_length_after :: "error + (score \<times> Chess3D) \<Rightarrow> error + nat" where
  "history_length_after r =
     (case r of Inl e \<Rightarrow> Inl e | Inr (v, g) \<Rightarrow> Inr (length (move_history g)))"

text \<open>
  In \<open>black_promotion_game\<close> Black is to move and has one pawn, one step from its last
  rank. In \<open>rook_game\<close> White is to move and has one rook; \<open>rook_moved_game\<close> is the
  game after the rook has gone one level up, with Black to move and one entry in the
  history.
\<close>

definition black_promotion_game :: Chess3D where
  "black_promotion_game =
     \<lparr>board = empty_board((0, 1, 0) := Some \<lparr>ptype = PAWN, color = BLACK\<rparr>),
      current_player = BLACK,
      move_history = []\<rparr>"

definition rook_game :: Chess3D where
  "rook_game =
     \<lparr>board = empty_board((0, 0, 0) := Some \<lparr>ptype = ROOK, color = WHITE\<rparr>),
      current_player = WHITE,
      move_history = []\<rparr>"

definition rook_up :: Move where
  "rook_up = mk_move \<lparr>level = 0, rank = 0, file = 0\<rparr> \<lparr>level = 1, rank = 0, file = 0\<rparr>"

definition rook_moved_game :: Chess3D where
  "rook_moved_game =
     \<lparr>board = empty_board((1, 0, 0) := Some \<lparr>ptype = ROOK, color = WHITE\<rparr>),
      current_player = BLACK,
      move_history = [(rook_up, None)]\<rparr>"



section \<open>The move generator never fails on a cell of the board\<close>

lemma andthen_Inr_iff: "andthen x f = Inr y \<longleftrightarrow> (\<exists>a. x = Inr a \<and> f a = Inr y)"
  by (cases x) auto

lemma andthen_Inl_iff: "andthen x f = Inl e \<longleftrightarrow> (x = Inl e \<or> (\<exists>a. x = Inr a \<and> f a = Inl e))"
  by (cases x) auto

lemma cell_index_valid:
  "is_valid_position pos \<Longrightarrow> cell_index pos = Inr (cell_of pos)"
  by (simp add: is_valid_position_def cell_index_def axis_index_def cell_of_def)

lemma get_piece_valid:
  "is_valid_position pos \<Longrightarrow> get_piece s pos = Inr (board s (cell_of pos))"
  by (simp add: get_piece_def cell_index_valid)

lemma set_piece_valid:
  "is_valid_position pos \<Longrightarrow>
   set_piece s pos p = Inr (s\<lparr>board := (board s)(cell_of pos := p)\<rparr>)"
  by (simp add: set_piece_def cell_index_valid)

lemma set_all_cells: "set all_cells = {(l, r, f). l < 3 \<and> r < 8 \<and> f < 8}"
  by (force simp: all_cells_def)

lemma valid_position_of:
  "c \<in> set all_cells \<Longrightarrow> is_valid_position (position_of c)"
  by (auto simp: set_all_cells position_of_def is_valid_position_def)

lemma cell_of_position_of [simp]: "cell_of (position_of c) = c"
  by (cases c) (simp add: position_of_def cell_of_def)

lemma valid_cell_of: "is_valid_position pos \<Longrightarrow> cell_of pos \<in> set all_cells"
  by (auto simp: set_all_cells cell_of_def is_valid_position_def)

lemma position_of_cell_of: "is_valid_position pos \<Longrightarrow> position_of (cell_of pos) = pos"
  by (simp add: position_of_def cell_of_def is_valid_position_def)

lemma is_king_of_iff:
  "is_king_of c found \<longleftrightarrow> found = Some \<lparr>ptype = KING, color = c\<rparr>"
  by (cases found) (auto simp: is_king_of_def)

lemma is_check_no_king_aux:
  assumes "\<And>l r f. l < 3 \<Longrightarrow> r < 8 \<Longrightarrow> f < 8 \<Longrightarrow>
             board s (l, r, f) \<noteq> Some \<lparr>ptype = KING, color = c\<rparr>"
  shows "is_check s c = Inr False"
proof -
  have "find (\<lambda>cell. is_king_of c (board s cell)) all_cells = None"
    unfolding find_None_iff using assms by (auto simp: set_all_cells is_king_of_iff)
  then show ?thesis by (simp add: is_check_def find_king_def)
qed

lemma collect_ok:
  assumes "\<And>x. x \<in> set xs \<Longrightarrow> \<exists>ms. f x = Inr ms \<and> (\<forall>m\<in>set ms. P m)"
  shows "\<exists>ms. collect f xs = Inr ms \<and> (\<forall>m\<in>set ms. P m)"
  using assms
proof (induction xs)
  case Nil
  then show ?case by simp
next
  case (Cons x xs)
  from Cons.prems[of x] obtain a where a: "f x = Inr a" "\<forall>m\<in>set a. P m" by auto
  from Cons.IH Cons.prems obtain b where b: "collect f xs = Inr b" "\<forall>m\<in>set b. P m"
    by auto
  show ?case using a b by auto
qed

lemma target_ok_valid:
  "is_valid_position p \<Longrightarrow>
   target_ok s piece p = (case board s (cell_of p) of None \<Rightarrow> True | Some t \<Rightarrow> color t \<noteq> color piece)"
  by (simp add: target_ok_def get_piece_valid)

lemma step_to_ok:
  "\<exists>ms. step_to s pos piece new_pos = Inr ms \<and> (\<forall>m\<in>set ms. plain_fact s pos piece m)"
  by (auto simp: step_to_def get_piece_valid plain_fact_def mk_move_def target_ok_valid
           split: option.splits)

lemma axis_index_shift:
  "axis_index 3 i = Inr a \<Longrightarrow> i < 2 \<Longrightarrow> \<exists>b. axis_index 3 (i + 1) = Inr b"
  "axis_index 3 i = Inr a \<Longrightarrow> 0 < i \<Longrightarrow> \<exists>b. axis_index 3 (i + - 1) = Inr b"
  by (auto simp: axis_index_def split: if_splits)

lemma cell_index_vertical:
  assumes "cell_index pos = Inr c"
  shows "level pos < 2 \<Longrightarrow> \<exists>c'. cell_index (shifted pos 1 0 0) = Inr c'"
    and "0 < level pos \<Longrightarrow> \<exists>c'. cell_index (shifted pos (- 1) 0 0) = Inr c'"
  using assms axis_index_shift[of "level pos"]
  by (auto simp: cell_index_def shifted_def andthen_Inr_iff)

lemma vertical_to_ok:
  assumes "cell_index new_pos = Inr c'" "is_valid_position pos \<longrightarrow> is_valid_position new_pos"
  shows "\<exists>ms. vertical_to s pos piece new_pos = Inr ms \<and> (\<forall>m\<in>set ms. plain_fact s pos piece m)"
  using assms
  by (auto simp: vertical_to_def get_piece_def plain_fact_def mk_move_def target_ok_def
           split: option.splits)

lemma slide_ok:
  "\<exists>ms. slide s pos piece d ks = Inr ms \<and> (\<forall>m\<in>set ms. plain_fact s pos piece m)"
proof (induction ks)
  case Nil
  then show ?case by simp
next
  case (Cons k ks)
  then obtain rest where rest: "slide s pos piece d ks = Inr rest"
      "\<forall>m\<in>set rest. plain_fact s pos piece m" by auto
  show ?case using rest
    by (auto simp: Let_def get_piece_valid plain_fact_def mk_move_def target_ok_valid
             split: option.splits)
qed

lemma sliding_ok:
  "\<exists>ms. get_sliding_moves s pos piece ds = Inr ms \<and> (\<forall>m\<in>set ms. plain_fact s pos piece m)"
  unfolding get_sliding_moves_def by (rule collect_ok) (rule slide_ok)

lemma knight_ok:
  "\<exists>ms. get_knight_moves s pos piece = Inr ms \<and> (\<forall>m\<in>set ms. plain_fact s pos piece m)"
  unfolding get_knight_moves_def by (rule collect_ok) (auto simp: step_to_ok split: prod.splits)

lemma king_ok:
  "\<exists>ms. get_king_moves s pos piece = Inr ms \<and> (\<forall>m\<in>set ms. plain_fact s pos piece m)"
  unfolding get_king_moves_def by (rule collect_ok) (rule step_to_ok)

lemma diagonal_steps_ok:
  "\<exists>ms. collect (\<lambda>(rank_offset, file_offset).
                   step_to s pos piece (shifted pos dl rank_offset file_offset)) diagonals = Inr ms \<and>
        (\<forall>m\<in>set ms. plain_fact s pos piece m)"
  by (rule collect_ok) (auto simp: step_to_ok split: prod.splits)

lemma append_ok:
  assumes "\<exists>ms. x = Inr ms \<and> (\<forall>m\<in>set ms. P m)" "\<exists>ms. y = Inr ms \<and> (\<forall>m\<in>set ms. P m)"
  shows "\<exists>ms. andthen x (\<lambda>a. andthen y (\<lambda>b. Inr (a @ b))) = Inr ms \<and> (\<forall>m\<in>set ms. P m)"
  using assms by auto

lemma nil_ok: "\<exists>ms. (Inr [] :: error + Move list) = Inr ms \<and> (\<forall>m\<in>set ms. P m)"
  by simp

lemma moves3d_ok:
  assumes "cell_index pos = Inr c"
  shows "\<exists>ms. get_3d_moves s pos piece = Inr ms \<and> (\<forall>m\<in>set ms. plain_fact s pos piece m)"
proof -
  have up: "\<exists>ms. (if level pos < 2 then vertical_to s pos piece (shifted pos 1 0 0) else Inr []) = Inr ms
          \<and> (\<forall>m\<in>set ms. plain_fact s pos piece m)"
  proof (cases "level pos < 2")
    case True
    from cell_index_vertical(1)[OF assms True] obtain c' where
      "cell_index (shifted pos 1 0 0) = Inr c'" by auto
    moreover have "is_valid_position pos \<longrightarrow> is_valid_position (shifted pos 1 0 0)"
      using True by (simp add: is_valid_position_def shifted_def)
    ultimately show ?thesis using True vertical_to_ok by simp
  qed simp
  have down: "\<exists>ms. (if level pos > 0 then vertical_to s pos piece (shifted pos (- 1) 0 0) else Inr []) = Inr ms
          \<and> (\<forall>m\<in>set ms. plain_fact s pos piece m)"
  proof (cases "level pos > 0")
    case True
    from cell_index_vertical(2)[OF assms True] obtain c' where
      "cell_index (shifted pos (- 1) 0 0) = Inr c'" by auto
    moreover have "is_valid_position pos \<longrightarrow> is_valid_position (shifted pos (- 1) 0 0)"
      using True by (simp add: is_valid_position_def shifted_def)
    ultimately show ?thesis using True vertical_to_ok by simp
  qed simp
  have dup: "\<exists>ms. (if level pos < 2
           then collect (\<lambda>(rank_offset, file_offset).
                           step_to s pos piece (shifted pos 1 rank_offset file_offset))
                  diagonals
           else Inr []) = Inr ms \<and> (\<forall>m\<in>set ms. plain_fact s pos piece m)"
    using diagonal_steps_ok[of s pos piece 1] by simp
  have ddown: "\<exists>ms. (if level pos > 0
           then collect (\<lambda>(rank_offset, file_offset).
                           step_to s pos piece (shifted pos (- 1) rank_offset file_offset))
                  diagonals
           else Inr []) = Inr ms \<and> (\<forall>m\<in>set ms. plain_fact s pos piece m)"
    using diagonal_steps_ok[of s pos piece "- 1"] by simp
  have kn: "\<exists>ms. collect (\<lambda>level_offset.
              collect (\<lambda>(rank_offset, file_offset).
                         step_to s pos piece (shifted pos level_offset rank_offset file_offset))
                diagonals) lo = Inr ms \<and> (\<forall>m\<in>set ms. plain_fact s pos piece m)" for lo
    by (rule collect_ok) (rule diagonal_steps_ok)
  show ?thesis
    unfolding get_3d_moves_def Let_def
    using kn append_ok[OF dup ddown] append_ok[OF up down] by simp
qed

lemma pawn_arrivals_fact:
  assumes "is_valid_position np" "target_ok s piece np" "pawn_step pos piece np"
  shows "\<forall>m\<in>set (pawn_arrivals pos np piece). pawn_fact s pos piece m"
  using assms by (auto simp: pawn_arrivals_def pawn_fact_def mk_move_def)

lemma pawn_double_ok:
  assumes "direction = (if color piece = WHITE then 1 else - 1)"
          "start_rank = (if color piece = WHITE then 1 else 6)"
  shows "\<exists>ms. pawn_double s pos direction start_rank = Inr ms \<and>
              (\<forall>m\<in>set ms. pawn_fact s pos piece m)"
  using assms
  by (auto simp: pawn_double_def Let_def get_piece_valid pawn_fact_def mk_move_def
                 target_ok_valid pawn_step_def shifted_def last_rank_def)

lemma pawn_capture_ok:
  assumes "direction = (if color piece = WHITE then 1 else - 1)"
  shows "\<exists>ms. pawn_capture s pos piece direction fo = Inr ms \<and>
              (\<forall>m\<in>set ms. pawn_fact s pos piece m)"
proof -
  let ?np = "shifted pos 0 direction fo"
  have step: "pawn_step pos piece ?np"
    using assms by (simp add: pawn_step_def shifted_def)
  show ?thesis
  proof (cases "is_valid_position ?np")
    case False
    then show ?thesis by (simp add: pawn_capture_def)
  next
    case True
    show ?thesis
    proof (cases "board s (cell_of ?np)")
      case None
      then show ?thesis using True by (simp add: pawn_capture_def get_piece_valid)
    next
      case (Some t)
      show ?thesis
      proof (cases "color t \<noteq> color piece")
        case False
        then show ?thesis using True Some by (simp add: pawn_capture_def get_piece_valid)
      next
        case enemy: True
        have "target_ok s piece ?np" using True Some enemy by (simp add: target_ok_valid)
        from pawn_arrivals_fact[OF True this step]
        show ?thesis using True Some enemy by (simp add: pawn_capture_def get_piece_valid)
      qed
    qed
  qed
qed

lemma pawn_ok:
  "\<exists>ms. get_pawn_moves s pos piece = Inr ms \<and> (\<forall>m\<in>set ms. pawn_fact s pos piece m)"
proof -
  define direction :: int where "direction = (if color piece = WHITE then 1 else - 1)"
  define start_rank :: int where "start_rank = (if color piece = WHITE then 1 else 6)"
  let ?np = "shifted pos 0 direction 0"
  have step: "pawn_step pos piece ?np"
    by (simp add: pawn_step_def shifted_def direction_def)
  have caps: "\<exists>ms. collect (pawn_capture s pos piece direction) [- 1, 1] = Inr ms \<and>
                 (\<forall>m\<in>set ms. pawn_fact s pos piece m)"
    by (rule collect_ok) (rule pawn_capture_ok[OF direction_def])
  have fwd: "\<exists>ms. (if is_valid_position ?np
            then andthen (get_piece s ?np) (\<lambda>target.
                   if target = None
                   then andthen (pawn_double s pos direction start_rank) (\<lambda>double.
                          Inr (pawn_arrivals pos ?np piece @ double))
                   else Inr [])
            else Inr []) = Inr ms \<and> (\<forall>m\<in>set ms. pawn_fact s pos piece m)"
  proof (cases "is_valid_position ?np \<and> board s (cell_of ?np) = None")
    case False
    then show ?thesis by (auto simp: get_piece_valid)
  next
    case True
    then have "target_ok s piece ?np" by (simp add: target_ok_valid)
    from pawn_arrivals_fact[OF _ this step] True
    have a: "\<forall>m\<in>set (pawn_arrivals pos ?np piece). pawn_fact s pos piece m" by simp
    from pawn_double_ok[OF direction_def start_rank_def, of s pos]
    obtain d where d: "pawn_double s pos direction start_rank = Inr d"
      "\<forall>m\<in>set d. pawn_fact s pos piece m" by auto
    show ?thesis using True a d by (auto simp: get_piece_valid)
  qed
  from fwd caps obtain f c where
    f: "(if is_valid_position ?np
            then andthen (get_piece s ?np) (\<lambda>target.
                   if target = None
                   then andthen (pawn_double s pos direction start_rank) (\<lambda>double.
                          Inr (pawn_arrivals pos ?np piece @ double))
                   else Inr [])
            else Inr []) = Inr f" "\<forall>m\<in>set f. pawn_fact s pos piece m"
    and c: "collect (pawn_capture s pos piece direction) [- 1, 1] = Inr c"
      "\<forall>m\<in>set c. pawn_fact s pos piece m" by blast
  have "get_pawn_moves s pos piece = Inr (f @ c)"
    unfolding get_pawn_moves_def Let_def
    unfolding direction_def[symmetric] start_rank_def[symmetric]
    using f(1) c(1) by simp
  then show ?thesis using f(2) c(2) by auto
qed

lemma valid_moves_ok:
  assumes "get_piece s pos = Inr (Some piece)"
  shows "\<exists>ms. get_valid_moves s pos = Inr ms \<and> (\<forall>m\<in>set ms. move_fact s pos piece m)"
proof -
  from assms obtain c where c: "cell_index pos = Inr c"
    by (auto simp: get_piece_def andthen_Inr_iff)
  from moves3d_ok[OF c, of s piece] obtain m3 where
    m3: "get_3d_moves s pos piece = Inr m3" "\<forall>m\<in>set m3. plain_fact s pos piece m" by auto
  show ?thesis
  proof (cases "ptype piece")
    case PAWN
    from pawn_ok[of s pos piece] obtain ms where
      ms: "get_pawn_moves s pos piece = Inr ms" "\<forall>m\<in>set ms. pawn_fact s pos piece m" by auto
    have "get_3d_moves s pos piece = Inr []" using PAWN by (simp add: get_3d_moves_def)
    then show ?thesis using assms PAWN ms
      by (simp add: get_valid_moves_def move_fact_def)
  next
    case KNIGHT
    from knight_ok[of s pos piece] obtain ms where
      "get_knight_moves s pos piece = Inr ms" "\<forall>m\<in>set ms. plain_fact s pos piece m" by auto
    then show ?thesis using assms KNIGHT m3
      by (auto simp add: get_valid_moves_def move_fact_def)
  next
    case BISHOP
    from sliding_ok[of s pos piece] obtain ms where
      "get_bishop_moves s pos piece = Inr ms" "\<forall>m\<in>set ms. plain_fact s pos piece m"
      unfolding get_bishop_moves_def by blast
    then show ?thesis using assms BISHOP m3
      by (auto simp add: get_valid_moves_def move_fact_def)
  next
    case ROOK
    from sliding_ok[of s pos piece] obtain ms where
      "get_rook_moves s pos piece = Inr ms" "\<forall>m\<in>set ms. plain_fact s pos piece m"
      unfolding get_rook_moves_def by blast
    then show ?thesis using assms ROOK m3
      by (auto simp add: get_valid_moves_def move_fact_def)
  next
    case QUEEN
    from sliding_ok[of s pos piece] obtain ms where
      "get_queen_moves s pos piece = Inr ms" "\<forall>m\<in>set ms. plain_fact s pos piece m"
      unfolding get_queen_moves_def by blast
    then show ?thesis using assms QUEEN m3
      by (auto simp add: get_valid_moves_def move_fact_def)
  next
    case KING
    from king_ok[of s pos piece] obtain ms where
      "get_king_moves s pos piece = Inr ms" "\<forall>m\<in>set ms. plain_fact s pos piece m" by auto
    then show ?thesis using assms KING m3
      by (auto simp add: get_valid_moves_def move_fact_def)
  qed
qed

lemma valid_moves_empty:
  "get_piece s pos = Inr None \<Longrightarrow> get_valid_moves s pos = Inr []"
  by (simp add: get_valid_moves_def)

lemma valid_moves_error:
  "get_piece s pos = Inl e \<Longrightarrow> get_valid_moves s pos = Inl e"
  by (simp add: get_valid_moves_def)

lemma make_move_accepted:
  assumes "make_move s m = Inr (True, s1)"
  obtains piece cf ct ms where
    "cell_index (from_pos m) = Inr cf" "cell_index (to_pos m) = Inr ct"
    "board s cf = Some piece" "color piece = current_player s"
    "get_valid_moves s (from_pos m) = Inr ms" "m \<in> set ms"
    "s1 = s\<lparr>board := (case promoted m piece of
                         None \<Rightarrow> (board s)(ct := Some piece, cf := None)
                       | Some q \<Rightarrow> (board s)(ct := Some piece, cf := None, ct := Some q)),
             move_history := move_history s @ [(m, board s ct)],
             current_player := other_color (current_player s)\<rparr>"
  using assms
  by (auto simp: make_move_def get_piece_def set_piece_def andthen_Inr_iff
           split: option.splits if_splits)

lemma pawn_move_other_cell:
  assumes "pawn_fact s pos piece m" "cell_index pos = Inr cf" "cell_index (to_pos m) = Inr ct"
  shows "ct \<noteq> cf"
proof -
  from assms(1) have v: "is_valid_position (to_pos m)"
    and st: "pawn_step pos piece (to_pos m)" by (auto simp: pawn_fact_def)
  from v assms(3) have ct: "ct = cell_of (to_pos m)" by (simp add: cell_index_valid)
  from assms(2) have "axis_index 8 (rank pos) = Inr (fst (snd cf))"
    by (auto simp: cell_index_def andthen_Inr_iff)
  then have "fst (snd cf) \<noteq> nat (rank (to_pos m))"
    using v st
    by (auto simp: axis_index_def is_valid_position_def pawn_step_def split: if_splits)
  then show ?thesis using ct by (auto simp: cell_of_def)
qed

lemma promoted_pawn: "promoted m piece = Some q \<Longrightarrow> ptype piece = PAWN"
  by (auto simp: promoted_def split: option.splits if_splits)

lemma game_eqI:
  "board a = board b \<Longrightarrow> current_player a = current_player b \<Longrightarrow>
   move_history a = move_history b \<Longrightarrow> (a :: Chess3D) = b"
  by simp

lemma other_color_twice [simp]: "other_color (other_color c) = c"
  by (cases c) (simp_all add: other_color_def)

lemma make_undo:
  assumes "make_move s m = Inr (True, s1)"
  shows "\<exists>s2. undo_move s1 = Inr (True, s2) \<and>
           current_player s2 = current_player s \<and>
           move_history s2 = move_history s \<and>
           (\<forall>piece cf. get_piece s (from_pos m) = Inr (Some piece) \<longrightarrow>
                        cell_index (from_pos m) = Inr cf \<longrightarrow>
              board s2 = (case promoted m piece of
                            None \<Rightarrow> board s
                          | Some q \<Rightarrow> (board s)(cf := Some q)))"
proof -
  from assms obtain piece cf ct ms where
    cf: "cell_index (from_pos m) = Inr cf" and ct: "cell_index (to_pos m) = Inr ct" and
    pc: "board s cf = Some piece" and
    ms: "get_valid_moves s (from_pos m) = Inr ms" "m \<in> set ms" and
    s1: "s1 = s\<lparr>board := (case promoted m piece of
                         None \<Rightarrow> (board s)(ct := Some piece, cf := None)
                       | Some q \<Rightarrow> (board s)(ct := Some piece, cf := None, ct := Some q)),
             move_history := move_history s @ [(m, board s ct)],
             current_player := other_color (current_player s)\<rparr>"
    by (rule make_move_accepted)
  have gp: "get_piece s (from_pos m) = Inr (Some piece)"
    using cf pc by (simp add: get_piece_def)
  show ?thesis
  proof (cases "promoted m piece")
    case None
    have "board s = (board s)(ct := Some piece, cf := None, cf := (if ct = cf then None else Some piece), ct := board s ct)"
      using pc by (auto simp: fun_eq_iff)
    then show ?thesis using None s1 cf ct gp
      by (auto simp: undo_move_def get_piece_def set_piece_def fun_upd_twist)
  next
    case (Some q)
    from valid_moves_ok[OF gp] ms have "move_fact s (from_pos m) piece m" by auto
    then have "pawn_fact s (from_pos m) piece m"
      using promoted_pawn[OF Some] by (simp add: move_fact_def)
    from pawn_move_other_cell[OF this cf ct] have ne: "ct \<noteq> cf" .
    have "(board s)(cf := Some q) = (board s)(ct := Some piece, cf := None, ct := Some q, cf := Some q, ct := board s ct)"
      using ne by (auto simp: fun_eq_iff)
    then show ?thesis using Some s1 cf ct gp ne
      by (auto simp: undo_move_def get_piece_def set_piece_def)
  qed
qed

lemma make_move_rejected:
  "get_piece s (from_pos m) = Inr None \<Longrightarrow> make_move s m = Inr (False, s)"
  "get_piece s (from_pos m) = Inr (Some piece) \<Longrightarrow> color piece \<noteq> current_player s \<Longrightarrow>
     make_move s m = Inr (False, s)"
  "get_piece s (from_pos m) = Inr (Some piece) \<Longrightarrow> get_valid_moves s (from_pos m) = Inr ms \<Longrightarrow>
     m \<notin> set ms \<Longrightarrow> make_move s m = Inr (False, s)"
  by (auto simp: make_move_def)

lemma undo_move_empty: "move_history s = [] \<Longrightarrow> undo_move s = Inr (False, s)"
  by (simp add: undo_move_def)

lemma ex_bool [simp]: "\<exists>b::bool. \<not> b" "\<exists>b::bool. b"
  by blast+

lemma valid_moves_total:
  assumes "is_valid_position pos"
  shows "\<exists>ms. get_valid_moves s pos = Inr ms"
proof (cases "board s (cell_of pos)")
  case None
  then show ?thesis using assms by (auto simp add: valid_moves_empty get_piece_valid)
next
  case (Some piece)
  then have "get_piece s pos = Inr (Some piece)" using assms by (simp add: get_piece_valid)
  from valid_moves_ok[OF this] show ?thesis by blast
qed

lemma attacked_total:
  assumes "set cells \<subseteq> set all_cells"
  shows "\<exists>b. attacked s opp king_pos cells = Inr b"
  using assms
proof (induction cells)
  case Nil
  then show ?case by simp
next
  case (Cons c cells)
  then have v: "is_valid_position (position_of c)" by (simp add: valid_position_of)
  from valid_moves_total[OF v, of s] obtain ms where
    ms: "get_valid_moves s (position_of c) = Inr ms" by blast
  from Cons obtain b where b: "attacked s opp king_pos cells = Inr b" by auto
  show ?case using v ms b by (auto simp add: get_piece_valid Let_def split: option.splits)
qed

lemma is_check_total: "\<exists>b. is_check s c = Inr b"
  using attacked_total[of all_cells] by (auto simp add: is_check_def split: option.splits)

lemma try_moves_restores:
  assumes "is_valid_position pos" "board s (cell_of pos) = Some piece"
      "\<forall>m\<in>set moves. \<exists>ct. cell_index (to_pos m) = Inr ct"
  shows "\<exists>b. try_moves s c pos piece moves = Inr (b, s)"
  using assms(3)
proof (induction moves)
  case Nil
  then show ?case by simp
next
  case (Cons m moves)
  then obtain ct where ct: "cell_index (to_pos m) = Inr ct" by auto
  define s2 where
    "s2 = s\<lparr>board := (board s)(ct := Some piece, cell_of pos := None)\<rparr>"
  from is_check_total[of s2 c] obtain still where still: "is_check s2 c = Inr still" by blast
  have restored: "s2\<lparr>board := (board s2)(cell_of pos := Some piece, ct := board s ct)\<rparr> = s"
    using assms(2) by (auto simp: s2_def fun_eq_iff)
  have step: "try_moves s c pos piece (m # moves) =
          (if \<not> still then Inr (True, s) else try_moves s c pos piece moves)"
    using ct still restored assms(1)
    by (simp add: get_piece_def set_piece_def cell_index_valid s2_def)
  from Cons obtain b where "try_moves s c pos piece moves = Inr (b, s)" by auto
  then show ?case unfolding step by auto
qed

lemma moves_indexable:
  assumes "get_piece s pos = Inr (Some piece)" "get_valid_moves s pos = Inr ms" "m \<in> set ms"
  shows "\<exists>ct. cell_index (to_pos m) = Inr ct"
proof -
  from valid_moves_ok[OF assms(1)] assms(2,3) have "move_fact s pos piece m" by auto
  then have "target_ok s piece (to_pos m)"
    by (auto simp: move_fact_def pawn_fact_def plain_fact_def split: if_splits)
  then show ?thesis
    by (cases "cell_index (to_pos m)") (auto simp: target_ok_def get_piece_def)
qed

lemma try_cells_restores:
  assumes "set cells \<subseteq> set all_cells"
  shows "\<exists>b. try_cells s c cells = Inr (b, s)"
  using assms
proof (induction cells)
  case Nil
  then show ?case by simp
next
  case (Cons cl cells)
  then have v: "is_valid_position (position_of cl)" by (simp add: valid_position_of)
  from Cons obtain b where b: "try_cells s c cells = Inr (b, s)" by auto
  show ?case
  proof (cases "board s cl")
    case None
    then show ?thesis using v b by (auto simp add: get_piece_valid Let_def)
  next
    case (Some piece)
    then have gp: "get_piece s (position_of cl) = Inr (Some piece)"
      using v by (simp add: get_piece_valid)
    from valid_moves_ok[OF gp] obtain ms where
      ms: "get_valid_moves s (position_of cl) = Inr ms" by blast
    have "\<forall>m\<in>set ms. \<exists>ct. cell_index (to_pos m) = Inr ct"
      using moves_indexable[OF gp ms] by blast
    from try_moves_restores[where c = c and piece = piece, OF v _ this] Some obtain e where
      "try_moves s c (position_of cl) piece ms = Inr (e, s)" by auto
    then show ?thesis using gp ms b by (auto simp add: Let_def)
  qed
qed

lemma is_checkmate_restores: "\<exists>b. is_checkmate s c = Inr (b, s)"
proof -
  obtain chk where chk: "is_check s c = Inr chk" using is_check_total by blast
  obtain b where "try_cells s c all_cells = Inr (b, s)"
    using try_cells_restores[of all_cells] by blast
  then show ?thesis using chk by (auto simp add: is_checkmate_def)
qed

lemma sum_cells_total:
  assumes "\<And>c. c \<in> set cells \<Longrightarrow> \<exists>x. f c = Inr x"
  shows "\<exists>x. sum_cells f cells = Inr x"
  using assms
proof (induction cells)
  case Nil
  then show ?case by simp
next
  case (Cons c cells)
  then obtain x y where "f c = Inr x" "sum_cells f cells = Inr y" by (meson list.set_intros)
  then show ?case by simp
qed

lemma evaluate_position_restores: "\<exists>v. evaluate_position s = Inr (v, s)"
proof -
  obtain w where w: "is_checkmate s WHITE = Inr (w, s)" using is_checkmate_restores by blast
  obtain b where b: "is_checkmate s BLACK = Inr (b, s)" using is_checkmate_restores by blast
  have "\<exists>x. count_non_king s c = Inr x" if "c \<in> set all_cells" for c
    using that by (auto simp add: count_non_king_def get_piece_valid valid_position_of split: option.splits)
  from sum_cells_total[of all_cells "count_non_king s", OF this] obtain n where
    n: "sum_cells (count_non_king s) all_cells = Inr n" by blast
  have "\<exists>x. piece_score s e c = Inr x" if "c \<in> set all_cells" for c e
    by (cases c) (use that in \<open>auto simp add: piece_score_def get_piece_valid valid_position_of Let_def
                     split: option.splits\<close>)
  from sum_cells_total[of all_cells "piece_score s (n \<le> 10)", OF this] obtain mat where
    mat: "sum_cells (piece_score s (n \<le> 10)) all_cells = Inr mat" by blast
  have mob: "\<exists>x. mobility s sd c = Inr x" if "c \<in> set all_cells" for c sd
    using that valid_moves_total[of "position_of c" s]
    by (auto simp add: mobility_def get_piece_valid valid_position_of split: option.splits)
  from sum_cells_total[of all_cells "mobility s WHITE", OF mob] obtain wm where
    wm: "sum_cells (mobility s WHITE) all_cells = Inr wm" by blast
  from sum_cells_total[of all_cells "mobility s BLACK", OF mob] obtain bm where
    bm: "sum_cells (mobility s BLACK) all_cells = Inr bm" by blast
  obtain wc where wc: "is_check s WHITE = Inr wc" using is_check_total by blast
  obtain bc where bc: "is_check s BLACK = Inr bc" using is_check_total by blast
  show ?thesis using w b n mat wm bm wc bc by (auto simp add: evaluate_position_def)
qed

lemma evaluate_position_mate:
  "is_checkmate s WHITE = Inr (True, s') \<Longrightarrow> evaluate_position s = Inr (- 10000, s')"
  "is_checkmate s WHITE = Inr (False, s') \<Longrightarrow> is_checkmate s' BLACK = Inr (True, s'') \<Longrightarrow>
     evaluate_position s = Inr (10000, s'')"
  by (simp_all add: evaluate_position_def)


section \<open>Showing check and checkmate in a given game\<close>

lemma find_unique:
  assumes "x \<in> set xs" "P x" "\<And>y. y \<in> set xs \<Longrightarrow> P y \<Longrightarrow> y = x"
  shows "find P xs = Some x"
  using assms
proof (induction xs)
  case Nil
  then show ?case by simp
next
  case (Cons a xs)
  show ?case
  proof (cases "P a")
    case True
    then have "a = x" using Cons.prems(3)[of a] by simp
    then show ?thesis using True by simp
  next
    case False
    then have "x \<in> set xs" using Cons.prems(1,2) by auto
    moreover have "\<And>y. y \<in> set xs \<Longrightarrow> P y \<Longrightarrow> y = x" using Cons.prems(3) by simp
    ultimately have "find P xs = Some x" using Cons.IH Cons.prems(2) by blast
    then show ?thesis using False by simp
  qed
qed

lemma find_king_unique:
  assumes "is_valid_position k" "board s (cell_of k) = Some \<lparr>ptype = KING, color = c\<rparr>"
    "\<And>cl. board s cl = Some \<lparr>ptype = KING, color = c\<rparr> \<Longrightarrow> cl = cell_of k"
  shows "find_king s c = Some k"
proof -
  have "find (\<lambda>cell. is_king_of c (board s cell)) all_cells = Some (cell_of k)"
  proof (rule find_unique)
    show "cell_of k \<in> set all_cells" using assms(1) by (rule valid_cell_of)
    show "is_king_of c (board s (cell_of k))" using assms(2) by (simp add: is_king_of_iff)
    show "y = cell_of k" if "is_king_of c (board s y)" for y
      using that assms(3)[of y] unfolding is_king_of_iff by blast
  qed
  then show ?thesis using assms(1) by (simp add: find_king_def position_of_cell_of)
qed

lemma attacked_by:
  assumes "set cells \<subseteq> set all_cells" "cl \<in> set cells" "board s cl = Some piece"
    "color piece = opp" "get_valid_moves s (position_of cl) = Inr ms"
    "m \<in> set ms" "to_pos m = k"
  shows "attacked s opp k cells = Inr True"
  using assms(1,2)
proof (induction cells)
  case Nil
  then show ?case by simp
next
  case (Cons c cells)
  then have v: "is_valid_position (position_of c)" by (simp add: valid_position_of)
  from valid_moves_total[OF v, of s] obtain ms' where
    ms': "get_valid_moves s (position_of c) = Inr ms'" by blast
  show ?case
  proof (cases "c = cl")
    case True
    then have "list_ex (\<lambda>move. to_pos move = k) ms'"
      using ms' assms(5,6,7) by (auto simp: list_ex_iff)
    then show ?thesis using True v ms' assms(3,4) by (simp add: get_piece_valid Let_def)
  next
    case False
    then have "attacked s opp k cells = Inr True" using Cons by auto
    then show ?thesis using v ms' by (simp add: get_piece_valid Let_def split: option.splits)
  qed
qed

lemma is_check_by:
  assumes "find_king s c = Some k" "cl \<in> set all_cells" "board s cl = Some piece"
    "color piece = other_color c" "get_valid_moves s (position_of cl) = Inr ms"
    "m \<in> set ms" "to_pos m = k"
  shows "is_check s c = Inr True"
  using attacked_by[OF subset_refl assms(2-7)] assms(1) by (simp add: is_check_def)

lemma try_cells_no_moves:
  assumes "set cells \<subseteq> set all_cells"
    "\<And>cl piece. cl \<in> set cells \<Longrightarrow> board s cl = Some piece \<Longrightarrow> color piece = c \<Longrightarrow>
        get_valid_moves s (position_of cl) = Inr []"
  shows "try_cells s c cells = Inr (True, s)"
  using assms
proof (induction cells)
  case Nil
  then show ?case by simp
next
  case (Cons cl cells)
  then have v: "is_valid_position (position_of cl)" by (simp add: valid_position_of)
  have rest: "try_cells s c cells = Inr (True, s)" using Cons by auto
  show ?case
  proof (cases "board s cl")
    case None
    then show ?thesis using v rest by (simp add: get_piece_valid Let_def)
  next
    case (Some piece)
    show ?thesis
    proof (cases "color piece = c")
      case True
      from Cons.prems(2)[OF _ Some True] have "get_valid_moves s (position_of cl) = Inr []"
        by simp
      then show ?thesis using v rest Some True by (simp add: get_piece_valid Let_def)
    next
      case False
      then show ?thesis using v rest Some by (simp add: get_piece_valid Let_def)
    qed
  qed
qed

lemma is_checkmate_no_moves:
  assumes "is_check s c = Inr True"
    "\<And>cl piece. cl \<in> set all_cells \<Longrightarrow> board s cl = Some piece \<Longrightarrow> color piece = c \<Longrightarrow>
        get_valid_moves s (position_of cl) = Inr []"
  shows "is_checkmate s c = Inr (True, s)"
  using try_cells_no_moves[OF subset_refl assms(2)] assms(1)
  by (simp add: is_checkmate_def)

lemma is_checkmate_not_in_check:
  "is_check s c = Inr False \<Longrightarrow> is_checkmate s c = Inr (False, s)"
  by (simp add: is_checkmate_def)

section \<open>The pruned search and exhaustive minimax\<close>

lemma make_move_of_generated:
  assumes "get_piece s pos = Inr (Some piece)" "color piece = current_player s"
    "get_valid_moves s pos = Inr ms" "m \<in> set ms"
  shows "\<exists>s1. make_move s m = Inr (True, s1)"
proof -
  from valid_moves_ok[OF assms(1)] assms(3,4) have mf: "move_fact s pos piece m" by auto
  then have f: "from_pos m = pos"
    by (auto simp: move_fact_def pawn_fact_def plain_fact_def split: if_splits)
  from moves_indexable[OF assms(1,3,4)] obtain ct where ct: "cell_index (to_pos m) = Inr ct"
    by blast
  from assms(1) obtain cf where cf: "cell_index pos = Inr cf"
    by (auto simp: get_piece_def andthen_Inr_iff)
  show ?thesis using assms f ct cf
    by (auto simp: make_move_def get_piece_def set_piece_def split: option.splits)
qed

lemma generated_no_promotion:
  assumes "pawn_room (Suc k) s" "is_valid_position pos" "get_piece s pos = Inr (Some piece)"
    "get_valid_moves s pos = Inr ms" "m \<in> set ms"
  shows "promoted m piece = None"
proof (cases "ptype piece = PAWN")
  case False
  then show ?thesis by (auto simp: promoted_def split: option.splits)
next
  case True
  from valid_moves_ok[OF assms(3)] assms(4,5) True have pf: "pawn_fact s pos piece m"
    by (auto simp: move_fact_def)
  have b: "board s (cell_of pos) = Some piece"
    using assms(2,3) by (simp add: get_piece_valid)
  have "if color piece = WHITE then max (nat (rank pos)) 2 + Suc k \<le> 6
        else max (7 - nat (rank pos)) 2 + Suc k \<le> 6"
    using assms(1,2) b True unfolding pawn_room_def cell_of_def is_valid_position_def
    by (metis (no_types, lifting) nat_less_iff zless_nat_conj numeral_less_iff nat_numeral
         semiring_norm(76) nat_0_le of_nat_numeral zero_less_numeral)
  then have "\<not> last_rank (to_pos m) piece"
    using pf assms(2)
    by (auto simp: pawn_fact_def pawn_step_def last_rank_def is_valid_position_def
             split: if_splits)
  then have "promotion m = None" using pf by (simp add: pawn_fact_def)
  then show ?thesis by (simp add: promoted_def)
qed

lemma side_of_not: "side_of (\<not> mx) = other_color (side_of mx)"
  by (simp add: side_of_def other_color_def)

lemma pawn_room_cell:
  assumes "pawn_room k s" "is_valid_position pos" "board s (cell_of pos) = Some piece"
    "ptype piece = PAWN"
  shows "if color piece = WHITE then max (nat (rank pos)) 2 + k \<le> 6
         else max (7 - nat (rank pos)) 2 + k \<le> 6"
proof -
  have "nat (level pos) < 3" "nat (rank pos) < 8" "nat (file pos) < 8"
    using assms(2) by (auto simp: is_valid_position_def)
  then show ?thesis
    using assms(1,3,4) unfolding pawn_room_def cell_of_def by blast
qed

lemma pawn_room_after:
  assumes room: "pawn_room (Suc k) s" and v: "is_valid_position pos"
    and b: "board s (cell_of pos) = Some piece"
    and mf: "move_fact s pos piece m"
    and ct: "cell_index (to_pos m) = Inr ct"
  shows "pawn_room k (s\<lparr>board := (board s)(ct := Some piece, cell_of pos := None),
                        move_history := h, current_player := p\<rparr>)"
  unfolding pawn_room_def
proof (intro allI impI)
  fix l r f q
  assume a: "l < 3 \<and> r < 8 \<and> f < 8 \<and>
    board (s\<lparr>board := (board s)(ct := Some piece, cell_of pos := None),
             move_history := h, current_player := p\<rparr>) (l, r, f) = Some q \<and> ptype q = PAWN"
  then have ne: "(l, r, f) \<noteq> cell_of pos" by auto
  show "if color q = WHITE then max r 2 + k \<le> 6 else max (7 - r) 2 + k \<le> 6"
  proof (cases "(l, r, f) = ct")
    case False
    then have "board s (l, r, f) = Some q" using a ne by simp
    then have "if color q = WHITE then max r 2 + Suc k \<le> 6 else max (7 - r) 2 + Suc k \<le> 6"
      using room a unfolding pawn_room_def by blast
    then show ?thesis by (auto split: if_splits)
  next
    case True
    then have q: "q = piece" using a ne by simp
    then have pawn: "ptype piece = PAWN" using a by simp
    then have pf: "pawn_fact s pos piece m" using mf by (simp add: move_fact_def)
    then have vt: "is_valid_position (to_pos m)" and st: "pawn_step pos piece (to_pos m)"
      by (auto simp: pawn_fact_def)
    from vt ct have "ct = cell_of (to_pos m)" by (simp add: cell_index_valid)
    then have r: "r = nat (rank (to_pos m))" using True by (auto simp: cell_of_def)
    from pawn_room_cell[OF room v b pawn]
    show ?thesis using r st vt v q
      by (auto simp: pawn_step_def is_valid_position_def split: if_splits)
  qed
qed

lemma search_step:
  assumes ready: "search_ready (Suc k) s mx" and cl: "cl \<in> set all_cells"
    and b: "board s cl = Some piece" and col: "color piece = side_of mx"
    and ms: "get_valid_moves s (position_of cl) = Inr ms" and m: "m \<in> set ms"
  shows "\<exists>s1. make_move s m = Inr (True, s1) \<and> search_ready k s1 (\<not> mx) \<and>
              undo_move s1 = Inr (True, s)"
proof -
  let ?pos = "position_of cl"
  have v: "is_valid_position ?pos" using cl by (rule valid_position_of)
  have gp: "get_piece s ?pos = Inr (Some piece)" using v b by (simp add: get_piece_valid)
  have cur: "color piece = current_player s" using ready col by (simp add: search_ready_def)
  have room: "pawn_room (Suc k) s" using ready by (simp add: search_ready_def)
  from make_move_of_generated[OF gp cur ms m] obtain s1 where
    s1: "make_move s m = Inr (True, s1)" by blast
  from valid_moves_ok[OF gp] ms m have mf: "move_fact s ?pos piece m" by auto
  then have f: "from_pos m = ?pos"
    by (auto simp: move_fact_def pawn_fact_def plain_fact_def split: if_splits)
  have np: "promoted m piece = None"
    by (rule generated_no_promotion[OF room v gp ms m])
  have cf: "cell_index (from_pos m) = Inr cl" using f v by (simp add: cell_index_valid)
  from s1 obtain ct where ct: "cell_index (to_pos m) = Inr ct"
    and s1eq: "s1 = s\<lparr>board := (board s)(ct := Some piece, cl := None),
                     move_history := move_history s @ [(m, board s ct)],
                     current_player := other_color (current_player s)\<rparr>"
    using np cf b by (auto elim!: make_move_accepted)
  have room1: "pawn_room k s1"
    unfolding s1eq using pawn_room_after[OF room v _ mf ct, of _ _] b by simp
  have cur1: "current_player s1 = side_of (\<not> mx)"
    using ready by (simp add: s1eq side_of_not search_ready_def)
  from make_undo[OF s1] obtain s2 where
    s2: "undo_move s1 = Inr (True, s2)" "current_player s2 = current_player s"
      "move_history s2 = move_history s"
    and bd: "\<forall>piece cf. get_piece s (from_pos m) = Inr (Some piece) \<longrightarrow>
                        cell_index (from_pos m) = Inr cf \<longrightarrow>
              board s2 = (case promoted m piece of
                            None \<Rightarrow> board s
                          | Some q \<Rightarrow> (board s)(cf := Some q))" by blast
  from bd have "get_piece s (from_pos m) = Inr (Some piece) \<longrightarrow>
                cell_index (from_pos m) = Inr cl \<longrightarrow>
                board s2 = (case promoted m piece of
                              None \<Rightarrow> board s
                            | Some q \<Rightarrow> (board s)(cl := Some q))" by blast
  then have "board s2 = board s" using gp f cf np by simp
  then have "s2 = s" using s2(2,3) by (intro game_eqI)
  then show ?thesis using s1 s2(1) room1 cur1 by (auto simp: search_ready_def)
qed

lemma moves_of_color_total:
  assumes "cl \<in> set all_cells"
  shows "moves_of_color s c cl = Inr (cell_moves s c cl)"
proof -
  have v: "is_valid_position (position_of cl)" using assms by (rule valid_position_of)
  from valid_moves_total[OF v, of s] obtain ms where
    "get_valid_moves s (position_of cl) = Inr ms" by blast
  then have "\<exists>ms. moves_of_color s c cl = Inr ms"
    using v by (auto simp: moves_of_color_def get_piece_valid Let_def split: option.splits)
  then show ?thesis by (auto simp: cell_moves_def)
qed

lemma collect_concat:
  assumes "\<And>x. x \<in> set xs \<Longrightarrow> f x = Inr (g x)"
  shows "collect f xs = Inr (concat (map g xs))"
  using assms by (induction xs) auto

lemma root_moves_concat: "root_moves s c = Inr (concat (map (cell_moves s c) all_cells))"
  unfolding root_moves_def by (rule collect_concat) (rule moves_of_color_total)

lemma all_moves_concat: "all_moves s c = concat (map (cell_moves s c) all_cells)"
  by (simp add: all_moves_def root_moves_concat)

lemma cell_moves_cases:
  assumes "cl \<in> set all_cells"
  shows "(board s cl = None \<and> cell_moves s c cl = []) \<or>
         (\<exists>piece. board s cl = Some piece \<and> color piece \<noteq> c \<and> cell_moves s c cl = []) \<or>
         (\<exists>piece. board s cl = Some piece \<and> color piece = c \<and>
                   get_valid_moves s (position_of cl) = Inr (cell_moves s c cl))"
proof -
  have v: "is_valid_position (position_of cl)" using assms by (rule valid_position_of)
  from valid_moves_total[OF v, of s] obtain ms where
    "get_valid_moves s (position_of cl) = Inr ms" by blast
  then show ?thesis using v
    by (cases "board s cl")
       (auto simp: cell_moves_def moves_of_color_def get_piece_valid Let_def)
qed

lemma ab_max_append:
  "ab_max cv (xs @ ys) v a b =
     (case ab_max cv xs v a b of
        (stop, v', a') \<Rightarrow> if stop then (True, v', a') else ab_max cv ys v' a' b)"
  by (induction xs arbitrary: v a) (auto simp: Let_def)

lemma ab_min_append:
  "ab_min cv (xs @ ys) v a b =
     (case ab_min cv xs v a b of
        (stop, v', b') \<Rightarrow> if stop then (True, v', b') else ab_min cv ys v' a b')"
  by (induction xs arbitrary: v b) (auto simp: Let_def)

lemma max_moves_pure:
  assumes "\<And>m a b. m \<in> set ms \<Longrightarrow>
     \<exists>s1. make_move s m = Inr (True, s1) \<and> child s1 a b = Inr (cv m a b, s1) \<and>
          undo_move s1 = Inr (True, s)"
  shows "max_moves child ms s value alpha beta =
           Inr (case ab_max cv ms value alpha beta of (stop, v, a) \<Rightarrow> (stop, s, v, a))"
  using assms
proof (induction ms arbitrary: "value" alpha)
  case Nil
  then show ?case by simp
next
  case (Cons m ms)
  from Cons.prems[of m alpha beta] obtain s1 where
    s1: "make_move s m = Inr (True, s1)" "child s1 alpha beta = Inr (cv m alpha beta, s1)"
      "undo_move s1 = Inr (True, s)" by auto
  have rest: "max_moves child ms s v a beta =
           Inr (case ab_max cv ms v a beta of (stop, v, a) \<Rightarrow> (stop, s, v, a))" for v a
    by (rule Cons.IH) (use Cons.prems in auto)
  show ?case using s1 rest by (simp add: Let_def)
qed

lemma min_moves_pure:
  assumes "\<And>m a b. m \<in> set ms \<Longrightarrow>
     \<exists>s1. make_move s m = Inr (True, s1) \<and> child s1 a b = Inr (cv m a b, s1) \<and>
          undo_move s1 = Inr (True, s)"
  shows "min_moves child ms s value alpha beta =
           Inr (case ab_min cv ms value alpha beta of (stop, v, b) \<Rightarrow> (stop, s, v, b))"
  using assms
proof (induction ms arbitrary: "value" beta)
  case Nil
  then show ?case by simp
next
  case (Cons m ms)
  from Cons.prems[of m alpha beta] obtain s1 where
    s1: "make_move s m = Inr (True, s1)" "child s1 alpha beta = Inr (cv m alpha beta, s1)"
      "undo_move s1 = Inr (True, s)" by auto
  have rest: "min_moves child ms s v alpha b =
           Inr (case ab_min cv ms v alpha b of (stop, v, b) \<Rightarrow> (stop, s, v, b))" for v b
    by (rule Cons.IH) (use Cons.prems in auto)
  show ?case using s1 rest by (simp add: Let_def)
qed

lemma max_cells_pure:
  assumes "set cells \<subseteq> set all_cells"
    "\<And>cl m a b. cl \<in> set cells \<Longrightarrow> m \<in> set (cell_moves s WHITE cl) \<Longrightarrow>
       \<exists>s1. make_move s m = Inr (True, s1) \<and> child s1 a b = Inr (cv m a b, s1) \<and>
            undo_move s1 = Inr (True, s)"
  shows "max_cells child cells s value alpha beta =
           Inr (case ab_max cv (concat (map (cell_moves s WHITE) cells)) value alpha beta of
                  (stop, v, a) \<Rightarrow> (stop, s, v, a))"
  using assms
proof (induction cells arbitrary: "value" alpha)
  case Nil
  then show ?case by simp
next
  case (Cons cl cells)
  have cl: "cl \<in> set all_cells" using Cons.prems(1) by simp
  have v: "is_valid_position (position_of cl)" using cl by (rule valid_position_of)
  have rest: "max_cells child cells s v a beta =
           Inr (case ab_max cv (concat (map (cell_moves s WHITE) cells)) v a beta of
                  (stop, v, a) \<Rightarrow> (stop, s, v, a))" for v a
  proof (rule Cons.IH)
    show "set cells \<subseteq> set all_cells" using Cons.prems(1) by simp
    show "\<exists>s1. make_move s m = Inr (True, s1) \<and> child s1 a b = Inr (cv m a b, s1) \<and>
            undo_move s1 = Inr (True, s)"
      if "cl' \<in> set cells" "m \<in> set (cell_moves s WHITE cl')" for cl' m a b
      using Cons.prems(2)[of cl' m a b] that by simp
  qed
  have mm: "max_moves child (cell_moves s WHITE cl) s value alpha beta =
           Inr (case ab_max cv (cell_moves s WHITE cl) value alpha beta of
                  (stop, v, a) \<Rightarrow> (stop, s, v, a))"
    by (rule max_moves_pure) (use Cons.prems(2)[of cl] in simp)
  from cell_moves_cases[OF cl, of s WHITE]
  show ?case
  proof (elim disjE exE conjE)
    assume "board s cl = None" "cell_moves s WHITE cl = []"
    then show ?thesis using v rest by (simp add: get_piece_valid Let_def)
  next
    fix piece
    assume "board s cl = Some piece" "color piece \<noteq> WHITE" "cell_moves s WHITE cl = []"
    then show ?thesis using v rest by (simp add: get_piece_valid Let_def)
  next
    fix piece
    assume "board s cl = Some piece" "color piece = WHITE"
      "get_valid_moves s (position_of cl) = Inr (cell_moves s WHITE cl)"
    then show ?thesis using v rest mm
      by (auto simp: get_piece_valid Let_def ab_max_append split: prod.splits)
  qed
qed

lemma min_cells_pure:
  assumes "set cells \<subseteq> set all_cells"
    "\<And>cl m a b. cl \<in> set cells \<Longrightarrow> m \<in> set (cell_moves s BLACK cl) \<Longrightarrow>
       \<exists>s1. make_move s m = Inr (True, s1) \<and> child s1 a b = Inr (cv m a b, s1) \<and>
            undo_move s1 = Inr (True, s)"
  shows "min_cells child cells s value alpha beta =
           Inr (case ab_min cv (concat (map (cell_moves s BLACK) cells)) value alpha beta of
                  (stop, v, b) \<Rightarrow> (stop, s, v, b))"
  using assms
proof (induction cells arbitrary: "value" beta)
  case Nil
  then show ?case by simp
next
  case (Cons cl cells)
  have cl: "cl \<in> set all_cells" using Cons.prems(1) by simp
  have v: "is_valid_position (position_of cl)" using cl by (rule valid_position_of)
  have rest: "min_cells child cells s v alpha b =
           Inr (case ab_min cv (concat (map (cell_moves s BLACK) cells)) v alpha b of
                  (stop, v, b) \<Rightarrow> (stop, s, v, b))" for v b
  proof (rule Cons.IH)
    show "set cells \<subseteq> set all_cells" using Cons.prems(1) by simp
    show "\<exists>s1. make_move s m = Inr (True, s1) \<and> child s1 a b = Inr (cv m a b, s1) \<and>
            undo_move s1 = Inr (True, s)"
      if "cl' \<in> set cells" "m \<in> set (cell_moves s BLACK cl')" for cl' m a b
      using Cons.prems(2)[of cl' m a b] that by simp
  qed
  have mm: "min_moves child (cell_moves s BLACK cl) s value alpha beta =
           Inr (case ab_min cv (cell_moves s BLACK cl) value alpha beta of
                  (stop, v, b) \<Rightarrow> (stop, s, v, b))"
    by (rule min_moves_pure) (use Cons.prems(2)[of cl] in simp)
  from cell_moves_cases[OF cl, of s BLACK]
  show ?case
  proof (elim disjE exE conjE)
    assume "board s cl = None" "cell_moves s BLACK cl = []"
    then show ?thesis using v rest by (simp add: get_piece_valid Let_def)
  next
    fix piece
    assume "board s cl = Some piece" "color piece \<noteq> BLACK" "cell_moves s BLACK cl = []"
    then show ?thesis using v rest by (simp add: get_piece_valid Let_def)
  next
    fix piece
    assume "board s cl = Some piece" "color piece = BLACK"
      "get_valid_moves s (position_of cl) = Inr (cell_moves s BLACK cl)"
    then show ?thesis using v rest mm
      by (auto simp: get_piece_valid Let_def ab_min_append split: prod.splits)
  qed
qed

lemma fold_max_ge: "(X :: score) \<le> fold (\<lambda>m v. max v (x m)) ms X"
proof (induction ms arbitrary: X)
  case Nil
  then show ?case by simp
next
  case (Cons m ms)
  have "X \<le> max X (x m)" by simp
  also have "\<dots> \<le> fold (\<lambda>m v. max v (x m)) ms (max X (x m))" by (rule Cons.IH)
  finally show ?case by simp
qed

lemma fold_min_le: "fold (\<lambda>m v. min v (x m)) ms X \<le> (X :: score)"
proof (induction ms arbitrary: X)
  case Nil
  then show ?case by simp
next
  case (Cons m ms)
  have "fold (\<lambda>m v. min v (x m)) ms (min X (x m)) \<le> min X (x m)" by (rule Cons.IH)
  also have "\<dots> \<le> X" by simp
  finally show ?case by simp
qed

lemma ab_max_fits:
  assumes "\<And>m a b. m \<in> set ms \<Longrightarrow> a < b \<Longrightarrow> fits a b (x m) (cv m a b)"
    and "A = max a0 V" "A < b0" "V \<le> a0 \<longrightarrow> X \<le> V" "a0 < V \<longrightarrow> X = V"
  shows "fits a0 b0 (fold (\<lambda>m v. max v (x m)) ms X) (fst (snd (ab_max cv ms V A b0)))"
  using assms
proof (induction ms arbitrary: V A X)
  case Nil
  then show ?case by (auto simp: fits_def)
next
  case (Cons m ms)
  define v where "v = cv m A b0"
  define V1 where "V1 = max V v"
  define A1 where "A1 = max A V1"
  define X1 where "X1 = max X (x m)"
  have fv: "fits A b0 (x m) v" unfolding v_def using Cons.prems(1)[of m A b0] Cons.prems(3) by simp
  show ?case
  proof (cases "b0 \<le> A1")
    case True
    have res: "fst (snd (ab_max cv (m # ms) V A b0)) = V1"
      using True by (simp add: Let_def v_def V1_def A1_def)
    have "V \<le> A" using Cons.prems(2) by simp
    then have "V1 = v" "b0 \<le> v" using True Cons.prems(3) unfolding A1_def V1_def
      by (auto simp: max_def split: if_splits)
    then have "v \<le> x m" using fv by (simp add: fits_def)
    also have "x m \<le> X1" by (simp add: X1_def)
    also have "X1 \<le> fold (\<lambda>m v. max v (x m)) ms X1" by (rule fold_max_ge)
    finally have "V1 \<le> fold (\<lambda>m v. max v (x m)) (m # ms) X"
      using \<open>V1 = v\<close> by (simp add: X1_def)
    moreover have "a0 < V1" using \<open>V1 = v\<close> \<open>b0 \<le> v\<close> Cons.prems(2,3) by (auto simp: max_def split: if_splits)
    ultimately show ?thesis unfolding res using \<open>V1 = v\<close> \<open>b0 \<le> v\<close> by (auto simp: fits_def)
  next
    case False
    have res: "fst (snd (ab_max cv (m # ms) V A b0)) = fst (snd (ab_max cv ms V1 A1 b0))"
      using False by (simp add: Let_def v_def V1_def A1_def)
    have 1: "A1 = max a0 V1" unfolding A1_def V1_def using Cons.prems(2)
      by (auto simp: max_def split: if_splits)
    have 2: "A1 < b0" using False by simp
    have 3: "V1 \<le> a0 \<longrightarrow> X1 \<le> V1"
      using fv Cons.prems(2,4,5) unfolding V1_def X1_def fits_def
      by (auto simp: max_def split: if_splits)
    have 4: "a0 < V1 \<longrightarrow> X1 = V1"
      using fv Cons.prems(2,3,4,5) False unfolding V1_def X1_def A1_def fits_def
      by (auto simp: max_def split: if_splits)
    have "fits a0 b0 (fold (\<lambda>m v. max v (x m)) ms X1) (fst (snd (ab_max cv ms V1 A1 b0)))"
      by (rule Cons.IH[OF _ 1 2 3 4]) (use Cons.prems(1) in simp)
    then show ?thesis unfolding res by (simp add: X1_def)
  qed
qed

lemma ab_min_fits:
  assumes "\<And>m a b. m \<in> set ms \<Longrightarrow> a < b \<Longrightarrow> fits a b (x m) (cv m a b)"
    and "B = min b0 V" "a0 < B" "b0 \<le> V \<longrightarrow> V \<le> X" "V < b0 \<longrightarrow> X = V"
  shows "fits a0 b0 (fold (\<lambda>m v. min v (x m)) ms X) (fst (snd (ab_min cv ms V a0 B)))"
  using assms
proof (induction ms arbitrary: V B X)
  case Nil
  then show ?case by (auto simp: fits_def)
next
  case (Cons m ms)
  define v where "v = cv m a0 B"
  define V1 where "V1 = min V v"
  define B1 where "B1 = min B V1"
  define X1 where "X1 = min X (x m)"
  have fv: "fits a0 B (x m) v" unfolding v_def using Cons.prems(1)[of m a0 B] Cons.prems(3) by simp
  show ?case
  proof (cases "B1 \<le> a0")
    case True
    have res: "fst (snd (ab_min cv (m # ms) V a0 B)) = V1"
      using True by (simp add: Let_def v_def V1_def B1_def)
    have "B \<le> V" using Cons.prems(2) by simp
    then have "V1 = v" "v \<le> a0" using True Cons.prems(3) unfolding B1_def V1_def
      by (auto simp: min_def split: if_splits)
    have "fold (\<lambda>m v. min v (x m)) ms X1 \<le> X1" by (rule fold_min_le)
    also have "X1 \<le> x m" by (simp add: X1_def)
    also have "x m \<le> v" using fv \<open>v \<le> a0\<close> by (simp add: fits_def)
    finally have "fold (\<lambda>m v. min v (x m)) (m # ms) X \<le> V1"
      using \<open>V1 = v\<close> by (simp add: X1_def)
    moreover have "V1 < b0" using \<open>V1 = v\<close> \<open>v \<le> a0\<close> Cons.prems(2,3) by (auto simp: min_def split: if_splits)
    ultimately show ?thesis unfolding res using \<open>V1 = v\<close> \<open>v \<le> a0\<close> by (auto simp: fits_def)
  next
    case False
    have res: "fst (snd (ab_min cv (m # ms) V a0 B)) = fst (snd (ab_min cv ms V1 a0 B1))"
      using False by (simp add: Let_def v_def V1_def B1_def)
    have 1: "B1 = min b0 V1" unfolding B1_def V1_def using Cons.prems(2)
      by (auto simp: min_def split: if_splits)
    have 2: "a0 < B1" using False by simp
    have 3: "b0 \<le> V1 \<longrightarrow> V1 \<le> X1"
      using fv Cons.prems(2,4,5) unfolding V1_def X1_def fits_def
      by (auto simp: min_def split: if_splits)
    have 4: "V1 < b0 \<longrightarrow> X1 = V1"
      using fv Cons.prems(2,3,4,5) False unfolding V1_def X1_def B1_def fits_def
      by (auto simp: min_def split: if_splits)
    have "fits a0 b0 (fold (\<lambda>m v. min v (x m)) ms X1) (fst (snd (ab_min cv ms V1 a0 B1)))"
      by (rule Cons.IH[OF _ 1 2 3 4]) (use Cons.prems(1) in simp)
    then show ?thesis unfolding res by (simp add: X1_def)
  qed
qed

lemma score_bounds [simp]: "NegInf \<le> (x :: score)" "(x :: score) \<le> PosInf"
  by (cases x; simp)+

lemma score_less [simp]: "NegInf < Fin a" "Fin a < PosInf" "NegInf < PosInf"
  "\<not> x < NegInf" "\<not> PosInf < x" "Fin a < Fin b \<longleftrightarrow> a < b"
  by (cases x; auto simp: less_score_def)+

lemma fits_exact: "fits a b x x"
  by (simp add: fits_def)

lemma child_facts:
  assumes ready: "search_ready (Suc d) s mx"
    and IH: "\<And>s' a b. search_ready d s' (\<not> mx) \<Longrightarrow>
               \<exists>v. minimax d s' a b (\<not> mx) = Inr (v, s') \<and>
                   (a < b \<longrightarrow> fits a b (exhaustive_minimax d s' (\<not> mx)) v)"
    and cl: "cl \<in> set all_cells" and m: "m \<in> set (cell_moves s (side_of mx) cl)"
  shows "\<exists>s1. make_move s m = Inr (True, s1) \<and>
              minimax d s1 a b (\<not> mx) = Inr (child_value d s (\<not> mx) m a b, s1) \<and>
              undo_move s1 = Inr (True, s) \<and>
              (a < b \<longrightarrow> fits a b (exhaustive_minimax d (after_move s m) (\<not> mx))
                               (child_value d s (\<not> mx) m a b))"
proof -
  from cell_moves_cases[OF cl, of s "side_of mx"] m obtain piece where
    p: "board s cl = Some piece" "color piece = side_of mx"
      "get_valid_moves s (position_of cl) = Inr (cell_moves s (side_of mx) cl)"
    by auto
  from search_step[OF ready cl p m] obtain s1 where
    s1: "make_move s m = Inr (True, s1)" "search_ready d s1 (\<not> mx)"
      "undo_move s1 = Inr (True, s)" by blast
  from IH[OF s1(2), of a b] obtain v where
    v: "minimax d s1 a b (\<not> mx) = Inr (v, s1)"
      "a < b \<longrightarrow> fits a b (exhaustive_minimax d s1 (\<not> mx)) v" by blast
  have am: "after_move s m = s1" using s1(1) by (simp add: after_move_def)
  have "child_value d s (\<not> mx) m a b = v" using v(1) am by (simp add: child_value_def)
  then show ?thesis using s1 v am by auto
qed

lemma in_all_moves:
  "m \<in> set (all_moves s c) \<Longrightarrow> \<exists>cl \<in> set all_cells. m \<in> set (cell_moves s c cl)"
  by (auto simp: all_moves_concat)

lemma minimax_sound:
  "search_ready d s mx \<Longrightarrow>
   \<exists>v. minimax d s alpha beta mx = Inr (v, s) \<and>
       (alpha < beta \<longrightarrow> fits alpha beta (exhaustive_minimax d s mx) v)"
proof (induction d arbitrary: s alpha beta mx)
  case 0
  from evaluate_position_restores[of s] obtain v where "evaluate_position s = Inr (v, s)"
    by blast
  then show ?case by (simp add: static_value_def fits_exact)
next
  case (Suc d)
  show ?case
  proof (cases mx)
    case True
    let ?cv = "child_value d s False"
    let ?x = "\<lambda>m. exhaustive_minimax d (after_move s m) False"
    have ready: "search_ready (Suc d) s True" using Suc.prems True by simp
    have IH: "\<exists>v. minimax d s' a b (\<not> True) = Inr (v, s') \<and>
                 (a < b \<longrightarrow> fits a b (exhaustive_minimax d s' (\<not> True)) v)"
      if "search_ready d s' (\<not> True)" for s' a b
      using Suc.IH[OF that] .
    have facts: "\<exists>s1. make_move s m = Inr (True, s1) \<and>
              minimax d s1 a b False = Inr (?cv m a b, s1) \<and>
              undo_move s1 = Inr (True, s) \<and>
              (a < b \<longrightarrow> fits a b (?x m) (?cv m a b))"
      if "cl \<in> set all_cells" "m \<in> set (cell_moves s WHITE cl)" for cl m a b
      using child_facts[OF ready IH that(1), of m a b] that(2) by (simp add: side_of_def)
    have loop: "max_cells (\<lambda>g a b. minimax d g a b False) all_cells s NegInf alpha beta =
           Inr (case ab_max ?cv (all_moves s WHITE) NegInf alpha beta of
                  (stop, v, a) \<Rightarrow> (stop, s, v, a))"
      unfolding all_moves_concat
      by (rule max_cells_pure) (use facts in blast)+
    have res: "minimax (Suc d) s alpha beta mx =
                 Inr (fst (snd (ab_max ?cv (all_moves s WHITE) NegInf alpha beta)), s)"
      using True loop by (simp split: prod.splits)
    have "fits alpha beta (fold (\<lambda>m v. max v (?x m)) (all_moves s WHITE) NegInf)
            (fst (snd (ab_max ?cv (all_moves s WHITE) NegInf alpha beta)))"
      if "alpha < beta"
    proof (rule ab_max_fits)
      show "fits a b (?x m) (?cv m a b)" if "m \<in> set (all_moves s WHITE)" "a < b" for m a b
        using in_all_moves[OF that(1)] facts that(2) by blast
      show "alpha = max alpha NegInf" by (simp add: max.absorb1)
      show "alpha < beta" by fact
      show "NegInf \<le> alpha \<longrightarrow> NegInf \<le> NegInf" by simp
      show "alpha < NegInf \<longrightarrow> NegInf = NegInf" by simp
    qed
    then show ?thesis using res True by simp
  next
    case False
    let ?cv = "child_value d s True"
    let ?x = "\<lambda>m. exhaustive_minimax d (after_move s m) True"
    have ready: "search_ready (Suc d) s False" using Suc.prems False by simp
    have IH: "\<exists>v. minimax d s' a b (\<not> False) = Inr (v, s') \<and>
                 (a < b \<longrightarrow> fits a b (exhaustive_minimax d s' (\<not> False)) v)"
      if "search_ready d s' (\<not> False)" for s' a b
      using Suc.IH[OF that] .
    have facts: "\<exists>s1. make_move s m = Inr (True, s1) \<and>
              minimax d s1 a b True = Inr (?cv m a b, s1) \<and>
              undo_move s1 = Inr (True, s) \<and>
              (a < b \<longrightarrow> fits a b (?x m) (?cv m a b))"
      if "cl \<in> set all_cells" "m \<in> set (cell_moves s BLACK cl)" for cl m a b
      using child_facts[OF ready IH that(1), of m a b] that(2) by (simp add: side_of_def)
    have loop: "min_cells (\<lambda>g a b. minimax d g a b True) all_cells s PosInf alpha beta =
           Inr (case ab_min ?cv (all_moves s BLACK) PosInf alpha beta of
                  (stop, v, b) \<Rightarrow> (stop, s, v, b))"
      unfolding all_moves_concat
      by (rule min_cells_pure) (use facts in blast)+
    have res: "minimax (Suc d) s alpha beta mx =
                 Inr (fst (snd (ab_min ?cv (all_moves s BLACK) PosInf alpha beta)), s)"
      using False loop by (simp split: prod.splits)
    have "fits alpha beta (fold (\<lambda>m v. min v (?x m)) (all_moves s BLACK) PosInf)
            (fst (snd (ab_min ?cv (all_moves s BLACK) PosInf alpha beta)))"
      if "alpha < beta"
    proof (rule ab_min_fits)
      show "fits a b (?x m) (?cv m a b)" if "m \<in> set (all_moves s BLACK)" "a < b" for m a b
        using in_all_moves[OF that(1)] facts that(2) by blast
      show "beta = min beta PosInf" by (simp add: min.absorb1)
      show "alpha < beta" by fact
      show "beta \<le> PosInf \<longrightarrow> PosInf \<le> PosInf" by simp
      show "PosInf < beta \<longrightarrow> PosInf = PosInf" by simp
    qed
    then show ?thesis using res False by simp
  qed
qed

lemma root_white:
  assumes "bv < PosInf \<longrightarrow> fits bv PosInf x v"
  shows "(bv < v \<longleftrightarrow> bv < x) \<and> (bv < v \<longrightarrow> v = x)"
  using assms by (cases bv; cases v; cases x) (auto simp: fits_def less_score_def)

lemma root_black:
  assumes "NegInf < bv \<longrightarrow> fits NegInf bv x v"
  shows "(v < bv \<longleftrightarrow> x < bv) \<and> (v < bv \<longrightarrow> v = x)"
  using assms by (cases bv; cases v; cases x) (auto simp: fits_def less_score_def)

lemma pawn_room_mono:
  assumes "pawn_room k s" "j \<le> k"
  shows "pawn_room j s"
  unfolding pawn_room_def
proof (intro allI impI)
  fix l r f piece
  assume a: "l < 3 \<and> r < 8 \<and> f < 8 \<and> board s (l, r, f) = Some piece \<and> ptype piece = PAWN"
  then have "if color piece = WHITE then max r 2 + k \<le> 6 else max (7 - r) 2 + k \<le> 6"
    using assms(1) unfolding pawn_room_def by blast
  then show "if color piece = WHITE then max r 2 + j \<le> 6 else max (7 - r) 2 + j \<le> 6"
    using assms(2) by (simp split: if_splits)
qed

lemma root_loop_sound:
  assumes "\<And>m. m \<in> set ms \<Longrightarrow>
       (\<exists>t. get_piece g (to_pos m) = Inr t) \<and> (\<exists>p. get_piece g (from_pos m) = Inr p) \<and>
       (\<exists>made g1 undone. make_move g m = Inr (made, g1) \<and>
           search_ready depth g1 (c \<noteq> WHITE) \<and> undo_move g1 = Inr (undone, g))"
    and "if c = WHITE then alpha = bv \<and> beta = PosInf else beta = bv \<and> alpha = NegInf"
  shows "root_loop depth c ms g bm bv alpha beta =
           Inr (pick_best c (\<lambda>m. exhaustive_minimax depth (after_move g m) (c \<noteq> WHITE))
                  ms bm bv)"
  using assms
proof (induction ms arbitrary: bm bv alpha beta)
  case Nil
  then show ?case by simp
next
  case (Cons m ms)
  from Cons.prems(1)[of m] obtain t p made g1 undone where
    r: "get_piece g (to_pos m) = Inr t" "get_piece g (from_pos m) = Inr p"
    and mk: "make_move g m = Inr (made, g1)"
    and ready: "search_ready depth g1 (c \<noteq> WHITE)"
    and un: "undo_move g1 = Inr (undone, g)" by auto
  have am: "after_move g m = g1" using mk by (simp add: after_move_def)
  let ?x = "exhaustive_minimax depth g1 (c \<noteq> WHITE)"
  from minimax_sound[OF ready, of alpha beta] obtain v where
    v: "minimax depth g1 alpha beta (c \<noteq> WHITE) = Inr (v, g1)"
      "alpha < beta \<longrightarrow> fits alpha beta ?x v" by blast
  have rest: "root_loop depth c ms g bm' bv' a' b' =
           Inr (pick_best c (\<lambda>m. exhaustive_minimax depth (after_move g m) (c \<noteq> WHITE))
                  ms bm' bv')"
    if "if c = WHITE then a' = bv' \<and> b' = PosInf else b' = bv' \<and> a' = NegInf"
    for bm' bv' a' b'
  proof (rule Cons.IH)
    show "(\<exists>t. get_piece g (to_pos m') = Inr t) \<and> (\<exists>p. get_piece g (from_pos m') = Inr p) \<and>
       (\<exists>made g1 undone. make_move g m' = Inr (made, g1) \<and>
           search_ready depth g1 (c \<noteq> WHITE) \<and> undo_move g1 = Inr (undone, g))"
      if "m' \<in> set ms" for m'
      by (rule Cons.prems(1)) (use that in simp)
    show "if c = WHITE then a' = bv' \<and> b' = PosInf else b' = bv' \<and> a' = NegInf"
      by (rule that)
  qed
  show ?case
  proof (cases "c = WHITE")
    case True
    have ab: "alpha = bv" "beta = PosInf" using Cons.prems(2) True by simp_all
    have "bv < PosInf \<longrightarrow> fits bv PosInf ?x v" using v(2) unfolding ab .
    from root_white[OF this]
    have k: "(bv < v \<longleftrightarrow> bv < ?x)" "bv < v \<longrightarrow> v = ?x" by blast+
    have "max bv v = (if bv < v then v else bv)" by (auto simp: max_def)
    then have next_ok: "if c = WHITE
          then max alpha v = (if bv < v then v else bv) \<and> beta = PosInf
          else beta = (if bv < v then v else bv) \<and> max alpha v = NegInf"
      unfolding ab using True by simp
    have "root_loop depth c (m # ms) g bm bv alpha beta =
            root_loop depth c ms g (if bv < v then Some m else bm)
              (if bv < v then v else bv) (max alpha v) beta"
      using True r mk v(1) un by simp
    also have "\<dots> = Inr (pick_best c (\<lambda>m. exhaustive_minimax depth (after_move g m) (c \<noteq> WHITE))
                  ms (if bv < v then Some m else bm) (if bv < v then v else bv))"
      by (rule rest[OF next_ok])
    finally have step: "root_loop depth c (m # ms) g bm bv alpha beta =
       Inr (pick_best c (\<lambda>m. exhaustive_minimax depth (after_move g m) (c \<noteq> WHITE))
                  ms (if bv < v then Some m else bm) (if bv < v then v else bv))" .
    show ?thesis
    proof (cases "bv < v")
      case less: True
      then have "v = ?x" "bv < ?x" using k by blast+
      then show ?thesis unfolding step using True am less by simp
    next
      case nless: False
      then have "\<not> bv < ?x" using k by blast
      then show ?thesis unfolding step using True am nless by simp
    qed
  next
    case False
    have ab: "beta = bv" "alpha = NegInf" using Cons.prems(2) False by simp_all
    have "NegInf < bv \<longrightarrow> fits NegInf bv ?x v" using v(2) unfolding ab .
    from root_black[OF this]
    have k: "(v < bv \<longleftrightarrow> ?x < bv)" "v < bv \<longrightarrow> v = ?x" by blast+
    have "min bv v = (if v < bv then v else bv)" by (auto simp: min_def)
    then have next_ok: "if c = WHITE
          then alpha = (if v < bv then v else bv) \<and> min beta v = PosInf
          else min beta v = (if v < bv then v else bv) \<and> alpha = NegInf"
      unfolding ab using False by simp
    have "root_loop depth c (m # ms) g bm bv alpha beta =
            root_loop depth c ms g (if v < bv then Some m else bm)
              (if v < bv then v else bv) alpha (min beta v)"
      using False r mk v(1) un by simp
    also have "\<dots> = Inr (pick_best c (\<lambda>m. exhaustive_minimax depth (after_move g m) (c \<noteq> WHITE))
                  ms (if v < bv then Some m else bm) (if v < bv then v else bv))"
      by (rule rest[OF next_ok])
    finally have step: "root_loop depth c (m # ms) g bm bv alpha beta =
       Inr (pick_best c (\<lambda>m. exhaustive_minimax depth (after_move g m) (c \<noteq> WHITE))
                  ms (if v < bv then Some m else bm) (if v < bv then v else bv))" .
    show ?thesis
    proof (cases "v < bv")
      case less: True
      then have "v = ?x" "?x < bv" using k by blast+
      then show ?thesis unfolding step using False am less by simp
    next
      case nless: False
      then have "\<not> ?x < bv" using k by blast
      then show ?thesis unfolding step using False am nless by simp
    qed
  qed
qed

lemma side_of_color: "side_of (c = WHITE) = c"
  by (cases c) (simp_all add: side_of_def)

lemma root_facts_to_move:
  assumes ready: "search_ready (Suc depth) g (c = WHITE)" and m: "m \<in> set (all_moves g c)"
  shows "(\<exists>t. get_piece g (to_pos m) = Inr t) \<and> (\<exists>p. get_piece g (from_pos m) = Inr p) \<and>
       (\<exists>made g1 undone. make_move g m = Inr (made, g1) \<and>
           search_ready depth g1 (c \<noteq> WHITE) \<and> undo_move g1 = Inr (undone, g))"
proof -
  from in_all_moves[OF m] obtain cl where cl: "cl \<in> set all_cells"
    and mc: "m \<in> set (cell_moves g c cl)" by blast
  from cell_moves_cases[OF cl, of g c] mc obtain piece where
    p: "board g cl = Some piece" "color piece = c"
      "get_valid_moves g (position_of cl) = Inr (cell_moves g c cl)" by auto
  have v: "is_valid_position (position_of cl)" using cl by (rule valid_position_of)
  have gp: "get_piece g (position_of cl) = Inr (Some piece)"
    using v p(1) by (simp add: get_piece_valid)
  from valid_moves_ok[OF gp] p(3) mc have "move_fact g (position_of cl) piece m" by auto
  then have f: "from_pos m = position_of cl"
    by (auto simp: move_fact_def pawn_fact_def plain_fact_def split: if_splits)
  from moves_indexable[OF gp p(3) mc] have t: "\<exists>t. get_piece g (to_pos m) = Inr t"
    by (auto simp: get_piece_def)
  have col: "color piece = side_of (c = WHITE)" using p(2) by (simp add: side_of_color)
  from search_step[OF ready cl p(1) col p(3) mc] obtain g1 where
    "make_move g m = Inr (True, g1)" "search_ready depth g1 (c \<noteq> WHITE)"
    "undo_move g1 = Inr (True, g)" by auto
  then show ?thesis using t gp f by auto
qed

lemma root_facts_waiting:
  assumes other: "current_player g \<noteq> c" and h: "move_history g = []"
    and room: "pawn_room depth g" and m: "m \<in> set (all_moves g c)"
  shows "(\<exists>t. get_piece g (to_pos m) = Inr t) \<and> (\<exists>p. get_piece g (from_pos m) = Inr p) \<and>
       (\<exists>made g1 undone. make_move g m = Inr (made, g1) \<and>
           search_ready depth g1 (c \<noteq> WHITE) \<and> undo_move g1 = Inr (undone, g))"
proof -
  from in_all_moves[OF m] obtain cl where cl: "cl \<in> set all_cells"
    and mc: "m \<in> set (cell_moves g c cl)" by blast
  from cell_moves_cases[OF cl, of g c] mc obtain piece where
    p: "board g cl = Some piece" "color piece = c"
      "get_valid_moves g (position_of cl) = Inr (cell_moves g c cl)" by auto
  have v: "is_valid_position (position_of cl)" using cl by (rule valid_position_of)
  have gp: "get_piece g (position_of cl) = Inr (Some piece)"
    using v p(1) by (simp add: get_piece_valid)
  from valid_moves_ok[OF gp] p(3) mc have "move_fact g (position_of cl) piece m" by auto
  then have f: "from_pos m = position_of cl"
    by (auto simp: move_fact_def pawn_fact_def plain_fact_def split: if_splits)
  from moves_indexable[OF gp p(3) mc] have t: "\<exists>t. get_piece g (to_pos m) = Inr t"
    by (auto simp: get_piece_def)
  have mk: "make_move g m = Inr (False, g)"
    by (rule make_move_rejected(2)[of g m piece]) (use gp f p(2) other in auto)
  have un: "undo_move g = Inr (False, g)" using h by (rule undo_move_empty)
  have "current_player g = side_of (c \<noteq> WHITE)"
    using other by (cases c; cases "current_player g") (simp_all add: side_of_def)
  then have "search_ready depth g (c \<noteq> WHITE)" using room by (simp add: search_ready_def)
  then show ?thesis using t gp f mk un by auto
qed

lemma get_best_move_sound:
  assumes c: "c = (case color_arg of None \<Rightarrow> current_player g | Some c' \<Rightarrow> c')"
    and sub: "set (order (all_moves g c)) \<subseteq> set (all_moves g c)"
    and st: "(current_player g = c \<and> pawn_room (Suc depth) g) \<or>
             (current_player g \<noteq> c \<and> move_history g = [] \<and> pawn_room depth g)"
  shows "get_best_move g depth order color_arg =
           Inr (exhaustive_best_move g depth order color_arg)"
proof -
  have facts: "(\<exists>t. get_piece g (to_pos m) = Inr t) \<and> (\<exists>p. get_piece g (from_pos m) = Inr p) \<and>
       (\<exists>made g1 undone. make_move g m = Inr (made, g1) \<and>
           search_ready depth g1 (c \<noteq> WHITE) \<and> undo_move g1 = Inr (undone, g))"
    if "m \<in> set (order (all_moves g c))" for m
  proof -
    from that sub have m: "m \<in> set (all_moves g c)" by blast
    from st show ?thesis
    proof
      assume a: "current_player g = c \<and> pawn_room (Suc depth) g"
      then have "search_ready (Suc depth) g (c = WHITE)"
        by (simp add: search_ready_def side_of_color)
      then show ?thesis using m by (rule root_facts_to_move)
    next
      assume a: "current_player g \<noteq> c \<and> move_history g = [] \<and> pawn_room depth g"
      then show ?thesis using m by (intro root_facts_waiting) auto
    qed
  qed
  have loop: "root_loop depth c (order (all_moves g c)) g None
                (if c = WHITE then NegInf else PosInf) NegInf PosInf =
              Inr (pick_best c (\<lambda>m. exhaustive_minimax depth (after_move g m) (c \<noteq> WHITE))
                     (order (all_moves g c)) None (if c = WHITE then NegInf else PosInf))"
    by (rule root_loop_sound) (use facts in auto)
  have rm: "root_moves g c = Inr (all_moves g c)"
    by (simp add: root_moves_concat all_moves_concat)
  show ?thesis
    unfolding get_best_move_def exhaustive_best_move_def Let_def c[symmetric]
    using rm loop by simp
qed

lemma fold_rank_cell:
  assumes "br \<noteq> pr"
  shows "fold (\<lambda>f b'. b'((L, br, f) := Some (P f), (L, pr, f) := Some Q)) [0..<n] b (l, r, f0) =
     (if l = L \<and> r = pr \<and> f0 < n then Some Q
      else if l = L \<and> r = br \<and> f0 < n then Some (P f0)
      else b (l, r, f0))"
  using assms by (induction n) (auto simp: less_Suc_eq)

lemma setup_standard_board_cell:
  "setup_standard_board L c b (l, r, f) =
     (if l = L \<and> r = (if c = WHITE then 1 else 6) \<and> f < 8
      then Some \<lparr>ptype = PAWN, color = c\<rparr>
      else if l = L \<and> r = (if c = WHITE then 0 else 7) \<and> f < 8
      then Some \<lparr>ptype = piece_order ! f, color = c\<rparr>
      else b (l, r, f))"
  unfolding setup_standard_board_def Let_def
  by (subst fold_rank_cell) auto

lemma piece_order_no_pawn:
  assumes "f < 8"
  shows "piece_order ! f \<noteq> PAWN"
proof -
  have "length piece_order = 8" by (simp add: piece_order_def)
  with assms have "piece_order ! f \<in> set piece_order" by (intro nth_mem) simp
  moreover have "PAWN \<notin> set piece_order" by (simp add: piece_order_def)
  ultimately show ?thesis by metis
qed

lemma reset_pawns:
  assumes "board reset (l, r, f) = Some piece" "ptype piece = PAWN"
  shows "(r = 1 \<and> color piece = WHITE) \<or> (r = 6 \<and> color piece = BLACK)"
  using assms piece_order_no_pawn[of f]
  by (auto simp: reset_def setup_standard_board_cell split: if_splits)

lemma pawn_room_reset: "pawn_room 4 reset"
  unfolding pawn_room_def using reset_pawns by fastforce

lemma reset_state: "current_player reset = WHITE" "move_history reset = []"
  by (simp_all add: reset_def)













section \<open>Two searches that do not give the game back\<close>

lemma min_cells_skip:
  assumes "\<forall>c\<in>set pre. c \<in> set all_cells \<and> board g c = None"
  shows "min_cells child (pre @ rest) g v a b = min_cells child rest g v a b"
  using assms
  by (induction pre) (simp_all add: get_piece_valid valid_position_of Let_def)

lemma max_cells_skip:
  assumes "\<forall>c\<in>set pre. c \<in> set all_cells \<and> board g c = None"
  shows "max_cells child (pre @ rest) g v a b = max_cells child rest g v a b"
  using assms
  by (induction pre) (simp_all add: get_piece_valid valid_position_of Let_def)

lemma min_cells_cut_first:
  assumes "cl \<in> set all_cells" "board g cl = Some piece" "color piece = BLACK"
    "get_valid_moves g (position_of cl) = Inr (m # ms)"
    "make_move g m = Inr (made, ga)" "child ga a b = Inr (v, gb)"
    "undo_move gb = Inr (undone, gc)" "min b (min val v) \<le> a"
  shows "min_cells child (cl # post) g val a b = Inr (True, gc, min val v, min b (min val v))"
  using assms by (simp add: get_piece_valid valid_position_of Let_def)

lemma max_cells_cut_first:
  assumes "cl \<in> set all_cells" "board g cl = Some piece" "color piece = WHITE"
    "get_valid_moves g (position_of cl) = Inr (m # ms)"
    "make_move g m = Inr (made, ga)" "child ga a b = Inr (v, gb)"
    "undo_move gb = Inr (undone, gc)" "b \<le> max a (max val v)"
  shows "max_cells child (cl # post) g val a b = Inr (True, gc, max val v, max a (max val v))"
  using assms by (simp add: get_piece_valid valid_position_of Let_def)

lemma minimax_0: "\<exists>v. minimax 0 g a b mx = Inr (Fin v, g)"
  using evaluate_position_restores[of g] by auto

lemma promotion_search_trace:
  "cell_after (minimax 1 black_promotion_game PosInf PosInf False) (0, 1, 0) =
     Inr (Some \<lparr>ptype = QUEEN, color = BLACK\<rparr>)"
proof -
  let ?g = black_promotion_game
  let ?pawn = "\<lparr>ptype = PAWN, color = BLACK\<rparr>"
  let ?from = "\<lparr>level = 0, rank = 1, file = 0\<rparr>"
  let ?m = "\<lparr>from_pos = ?from, to_pos = \<lparr>level = 0, rank = 0, file = 0\<rparr>,
            promotion = Some QUEEN\<rparr>"
  let ?child = "\<lambda>g a b. minimax 0 g a b True"
  have cells: "all_cells = take 8 all_cells @ (0, 1, 0) # drop 9 all_cells" by code_simp
  have "list_all (\<lambda>c. board ?g c = None) (take 8 all_cells)" by code_simp
  then have pre: "\<forall>c\<in>set (take 8 all_cells). c \<in> set all_cells \<and> board ?g c = None"
    using set_take_subset[of 8 all_cells] by (auto simp: list_all_iff)
  have cl: "(0, 1, 0) \<in> set all_cells" by (simp add: set_all_cells)
  have b: "board ?g (0, 1, 0) = Some ?pawn"
    by (simp add: black_promotion_game_def empty_board_def)
  have pos: "position_of (0, 1, 0) = ?from" by (simp add: position_of_def)
  have gp: "get_piece ?g ?from = Inr (Some ?pawn)" by code_simp
  have "case get_valid_moves ?g ?from of
          Inr (m # ms) \<Rightarrow> m = ?m | Inr [] \<Rightarrow> False | Inl e \<Rightarrow> False"
    by code_simp
  then obtain ms where gvm: "get_valid_moves ?g ?from = Inr (?m # ms)"
    by (auto split: sum.splits list.splits)
  have cur: "color ?pawn = current_player ?g" by (simp add: black_promotion_game_def)
  have col: "color ?pawn = BLACK" by simp
  have gvm': "get_valid_moves ?g (position_of (0, 1, 0)) = Inr (?m # ms)"
    unfolding pos by (rule gvm)
  from make_move_of_generated[OF gp cur gvm] obtain g1 where
    mk: "make_move ?g ?m = Inr (True, g1)" by auto
  from minimax_0[of g1 PosInf PosInf True] obtain v where
    ch: "?child g1 PosInf PosInf = Inr (Fin v, g1)" by blast
  have ci: "cell_index (from_pos ?m) = Inr (0, 1, 0)"
    by (simp add: cell_index_def axis_index_def)
  have pr: "promoted ?m ?pawn = Some \<lparr>ptype = QUEEN, color = BLACK\<rparr>"
    by (simp add: promoted_def)
  from make_undo[OF mk] obtain g3 where
    un: "undo_move g1 = Inr (True, g3)"
    and bd: "\<forall>piece cf. get_piece ?g (from_pos ?m) = Inr (Some piece) \<longrightarrow>
                        cell_index (from_pos ?m) = Inr cf \<longrightarrow>
              board g3 = (case promoted ?m piece of
                            None \<Rightarrow> board ?g
                          | Some q \<Rightarrow> (board ?g)(cf := Some q))" by blast
  from bd have "get_piece ?g (from_pos ?m) = Inr (Some ?pawn) \<longrightarrow>
                cell_index (from_pos ?m) = Inr (0, 1, 0) \<longrightarrow>
                board g3 = (case promoted ?m ?pawn of
                              None \<Rightarrow> board ?g
                            | Some q \<Rightarrow> (board ?g)((0, 1, 0) := Some q))" by blast
  then have g3: "board g3 (0, 1, 0) = Some \<lparr>ptype = QUEEN, color = BLACK\<rparr>"
    using gp ci pr by simp
  have stop: "min PosInf (min PosInf (Fin v)) \<le> PosInf" by simp
  have "min_cells ?child all_cells ?g PosInf PosInf PosInf =
          min_cells ?child ((0, 1, 0) # drop 9 all_cells) ?g PosInf PosInf PosInf"
    by (subst cells) (rule min_cells_skip[OF pre])
  also have "\<dots> = Inr (True, g3, min PosInf (Fin v), min PosInf (min PosInf (Fin v)))"
    by (rule min_cells_cut_first[where child = ?child and piece = ?pawn and m = ?m and ms = ms
                                   and ga = g1 and gb = g1 and v = "Fin v" and a = PosInf
                                   and b = PosInf and val = PosInf and made = True
                                   and undone = True and g = ?g and cl = "(0, 1, 0)",
                                 OF cl b col gvm' mk ch un stop])
  finally have "minimax (Suc 0) ?g PosInf PosInf False = Inr (min PosInf (Fin v), g3)"
    by simp
  then show ?thesis using g3 by (simp add: cell_after_def)
qed

lemma wrong_side_search_trace:
  "history_length_after (minimax 1 rook_moved_game NegInf NegInf True) = Inr 0 \<and>
   player_after (minimax 1 rook_moved_game NegInf NegInf True) = Inr WHITE"
proof -
  let ?g = rook_moved_game
  let ?rook = "\<lparr>ptype = ROOK, color = WHITE\<rparr>"
  let ?from = "\<lparr>level = 1, rank = 0, file = 0\<rparr>"
  let ?m = "mk_move ?from \<lparr>level = 1, rank = 0, file = 1\<rparr>"
  let ?child = "\<lambda>g a b. minimax 0 g a b False"
  have cells: "all_cells = take 64 all_cells @ (1, 0, 0) # drop 65 all_cells" by code_simp
  have "list_all (\<lambda>c. board ?g c = None) (take 64 all_cells)" by code_simp
  then have pre: "\<forall>c\<in>set (take 64 all_cells). c \<in> set all_cells \<and> board ?g c = None"
    using set_take_subset[of 64 all_cells] by (auto simp: list_all_iff)
  have cl: "(1, 0, 0) \<in> set all_cells" by (simp add: set_all_cells)
  have b: "board ?g (1, 0, 0) = Some ?rook"
    by (simp add: rook_moved_game_def empty_board_def)
  have pos: "position_of (1, 0, 0) = ?from" by (simp add: position_of_def)
  have gp: "get_piece ?g (from_pos ?m) = Inr (Some ?rook)" by code_simp
  have "case get_valid_moves ?g ?from of
          Inr (m # ms) \<Rightarrow> m = ?m | Inr [] \<Rightarrow> False | Inl e \<Rightarrow> False"
    by code_simp
  then obtain ms where gvm: "get_valid_moves ?g ?from = Inr (?m # ms)"
    by (auto split: sum.splits list.splits)
  have col: "color ?rook = WHITE" by simp
  have gvm': "get_valid_moves ?g (position_of (1, 0, 0)) = Inr (?m # ms)"
    unfolding pos by (rule gvm)
  have "color ?rook \<noteq> current_player ?g" by (simp add: rook_moved_game_def)
  with gp have mk: "make_move ?g ?m = Inr (False, ?g)" by (rule make_move_rejected(2))
  from minimax_0[of ?g NegInf NegInf False] obtain v where
    ch: "?child ?g NegInf NegInf = Inr (Fin v, ?g)" by blast
  obtain g3 where un: "undo_move ?g = Inr (True, g3)"
    and g3: "move_history g3 = []" "current_player g3 = WHITE"
    by (simp add: undo_move_def rook_moved_game_def rook_up_def mk_move_def get_piece_def
          set_piece_def cell_index_def axis_index_def other_color_def)
  have stop: "NegInf \<le> max NegInf (max NegInf (Fin v))" by simp
  have "max_cells ?child all_cells ?g NegInf NegInf NegInf =
          max_cells ?child ((1, 0, 0) # drop 65 all_cells) ?g NegInf NegInf NegInf"
    by (subst cells) (rule max_cells_skip[OF pre])
  also have "\<dots> = Inr (True, g3, max NegInf (Fin v), max NegInf (max NegInf (Fin v)))"
    by (rule max_cells_cut_first[where child = ?child and piece = ?rook and m = ?m and ms = ms
                                   and ga = ?g and gb = ?g and v = "Fin v" and a = NegInf
                                   and b = NegInf and val = NegInf and made = False
                                   and undone = True and g = ?g and cl = "(1, 0, 0)",
                                 OF cl b col gvm' mk ch un stop])
  finally have "minimax (Suc 0) ?g NegInf NegInf True = Inr (max NegInf (Fin v), g3)"
    by simp
  then show ?thesis using g3 by (simp add: history_length_after_def player_after_def)
qed





section \<open>The claims\<close>

lemmas eval_simps =
  get_piece_def set_piece_def cell_index_def axis_index_def is_valid_position_def
  get_valid_moves_def get_pawn_moves_def pawn_double_def pawn_capture_def pawn_arrivals_def
  last_rank_def shifted_def mk_move_def step_to_def get_knight_moves_def get_sliding_moves_def
  get_bishop_moves_def get_rook_moves_def get_queen_moves_def get_king_moves_def
  vertical_to_def diagonals_def get_3d_moves_def promoted_def make_move_def undo_move_def
  other_color_def Let_def

text \<open>
  C1. Whenever \<open>make_move\<close> accepts a move (it returns \<open>True\<close>), \<open>undo_move\<close> called
  next returns \<open>True\<close> and gives back the side to move and the history as they were.
  The board is the one before the move, except after a promotion: then the cell the pawn
  came from holds the promoted piece, and every other cell is as before. This holds in
  every game, reachable or not.
\<close>

theorem make_move_undo_move:
  assumes "make_move s m = Inr (True, s1)"
  shows "\<exists>s2. undo_move s1 = Inr (True, s2) \<and>
           current_player s2 = current_player s \<and>
           move_history s2 = move_history s \<and>
           (\<forall>piece cf. get_piece s (from_pos m) = Inr (Some piece) \<longrightarrow>
                        cell_index (from_pos m) = Inr cf \<longrightarrow>
              board s2 = (case promoted m piece of
                            None \<Rightarrow> board s
                          | Some q \<Rightarrow> (board s)(cf := Some q)))"
  using assms by (rule make_undo)

theorem make_move_undo_move_witness:
  "\<exists>s1. make_move promotion_game promotion_move = Inr (True, s1) \<and>
     (\<exists>s2. undo_move s1 = Inr (True, s2) \<and>
        current_player s2 = WHITE \<and> move_history s2 = [] \<and>
        board s2 = (board promotion_game)((0, 6, 1) := Some \<lparr>ptype = QUEEN, color = WHITE\<rparr>))"
proof -
  obtain s1 where s1: "make_move promotion_game promotion_move = Inr (True, s1)"
    by (auto simp: promotion_game_def promotion_move_def empty_board_def eval_simps)
  have piece: "get_piece promotion_game (from_pos promotion_move) =
                 Inr (Some \<lparr>ptype = PAWN, color = WHITE\<rparr>)"
    and cf: "cell_index (from_pos promotion_move) = Inr (0, 6, 1)"
    and pr: "promoted promotion_move \<lparr>ptype = PAWN, color = WHITE\<rparr> =
               Some \<lparr>ptype = QUEEN, color = WHITE\<rparr>"
    by (simp_all add: promotion_game_def promotion_move_def empty_board_def eval_simps)
  from make_move_undo_move[OF s1] piece cf pr s1 show ?thesis
    by (auto simp: promotion_game_def)
qed

text \<open>
  C2. In the starting position the white queen stands on level 0 below an empty cell
  of level 1, and \<open>get_valid_moves\<close> gives her two moves, both diagonal steps to
  level 1: the vertical move to the cell above her is not among them. In
  \<open>_get_3d_moves\<close> the test for bishop or queen comes first, so a queen never reaches
  the branch of the vertical moves.
\<close>

theorem queen_has_no_vertical_move:
  "get_piece reset queen_home = Inr (Some \<lparr>ptype = QUEEN, color = WHITE\<rparr>) \<and>
   get_piece reset (shifted queen_home 1 0 0) = Inr None \<and>
   get_valid_moves reset queen_home =
     Inr [mk_move queen_home (shifted queen_home 1 1 1),
          mk_move queen_home (shifted queen_home 1 1 (- 1))]"
  by code_simp

text \<open>
  C5. \<open>make_move\<close> returns \<open>False\<close> and the game it was given when the cell of the
  from-position is empty, when the piece there is not of the side to move, and when the
  move is not among the moves \<open>get_valid_moves\<close> gives for the from-position;
  \<open>undo_move\<close> returns \<open>False\<close> and the game it was given when the history is empty.
  The from-position is one the board can be read at: \<open>get_piece\<close> returns.
\<close>

theorem make_move_rejects:
  "(get_piece s (from_pos m) = Inr None \<longrightarrow> make_move s m = Inr (False, s)) \<and>
   (\<forall>piece. get_piece s (from_pos m) = Inr (Some piece) \<and> color piece \<noteq> current_player s
        \<longrightarrow> make_move s m = Inr (False, s)) \<and>
   (\<forall>piece ms. get_piece s (from_pos m) = Inr (Some piece) \<and>
        get_valid_moves s (from_pos m) = Inr ms \<and> m \<notin> set ms
        \<longrightarrow> make_move s m = Inr (False, s)) \<and>
   (move_history s = [] \<longrightarrow> undo_move s = Inr (False, s))"
  using make_move_rejected[of s m] undo_move_empty[of s] by blast

text \<open>
  The move \<open>off_board_move\<close> starts at \<open>Position(3, 1, 0)\<close>, a level the board does
  not have, so no piece is there. In the starting position \<open>make_move\<close> does not
  return \<open>False\<close> for it: reading the board at that position raises.
\<close>

theorem make_move_off_board_counterexample:
  "make_move reset off_board_move = Inl IndexError"
  by (simp add: off_board_move_def make_move_def get_piece_def cell_index_def axis_index_def)

theorem make_move_rejects_witness:
  "get_piece promotion_game (from_pos empty_cell_move) = Inr None \<and>
   make_move promotion_game empty_cell_move = Inr (False, promotion_game) \<and>
   current_player promotion_game = WHITE \<and>
   get_piece promotion_game (from_pos wrong_side_move) = Inr (Some \<lparr>ptype = ROOK, color = BLACK\<rparr>) \<and>
   make_move promotion_game wrong_side_move = Inr (False, promotion_game) \<and>
   get_piece promotion_game (from_pos backward_move) = Inr (Some \<lparr>ptype = PAWN, color = WHITE\<rparr>) \<and>
   (\<exists>ms. get_valid_moves promotion_game (from_pos backward_move) = Inr ms \<and>
         backward_move \<notin> set ms) \<and>
   make_move promotion_game backward_move = Inr (False, promotion_game) \<and>
   move_history promotion_game = [] \<and>
   undo_move promotion_game = Inr (False, promotion_game)"
proof -
  have e: "get_piece promotion_game (from_pos empty_cell_move) = Inr None"
    by code_simp
  have w: "get_piece promotion_game (from_pos wrong_side_move) =
             Inr (Some \<lparr>ptype = ROOK, color = BLACK\<rparr>)"
    "color \<lparr>ptype = ROOK, color = BLACK\<rparr> \<noteq> current_player promotion_game"
    by code_simp+
  have b: "get_piece promotion_game (from_pos backward_move) =
             Inr (Some \<lparr>ptype = PAWN, color = WHITE\<rparr>)"
    by code_simp
  have ms: "get_valid_moves promotion_game (from_pos backward_move) =
      Inr (map (\<lambda>t. \<lparr>from_pos = pawn_home, to_pos = \<lparr>level = 0, rank = 7, file = 1\<rparr>,
                      promotion = Some t\<rparr>) [QUEEN, ROOK, BISHOP, KNIGHT] @
           map (\<lambda>t. \<lparr>from_pos = pawn_home, to_pos = \<lparr>level = 0, rank = 7, file = 2\<rparr>,
                      promotion = Some t\<rparr>) [QUEEN, ROOK, BISHOP, KNIGHT])"
    by code_simp
  have notin: "backward_move \<notin> set (map (\<lambda>t. \<lparr>from_pos = pawn_home, to_pos = \<lparr>level = 0, rank = 7, file = 1\<rparr>,
                      promotion = Some t\<rparr>) [QUEEN, ROOK, BISHOP, KNIGHT] @
           map (\<lambda>t. \<lparr>from_pos = pawn_home, to_pos = \<lparr>level = 0, rank = 7, file = 2\<rparr>,
                      promotion = Some t\<rparr>) [QUEEN, ROOK, BISHOP, KNIGHT])"
    by (simp add: backward_move_def mk_move_def)
  have h: "move_history promotion_game = []" "current_player promotion_game = WHITE"
    by (simp_all add: promotion_game_def)
  from make_move_rejects[of promotion_game empty_cell_move] e
  have 1: "make_move promotion_game empty_cell_move = Inr (False, promotion_game)" by blast
  from make_move_rejects[of promotion_game wrong_side_move] w
  have 2: "make_move promotion_game wrong_side_move = Inr (False, promotion_game)" by blast
  from make_move_rejects[of promotion_game backward_move] b ms notin
  have 3: "make_move promotion_game backward_move = Inr (False, promotion_game)" by blast
  from make_move_rejects[of promotion_game empty_cell_move] h
  have 4: "undo_move promotion_game = Inr (False, promotion_game)" by blast
  show ?thesis using e w b ms notin h 1 2 3 4 by blast
qed

text \<open>
  C6. \<open>is_checkmate\<close> returns in every game and for both colours, and the game it
  leaves is the game it was given: the board, the side to move and the history. Every
  trial puts back the two cells it changed before the next one starts.
\<close>

theorem is_checkmate_leaves_game: "\<exists>b. is_checkmate s c = Inr (b, s)"
  by (rule is_checkmate_restores)

text \<open>
  C7. \<open>evaluate_position\<close> tests first whether White is checkmated and returns -10000
  if so; otherwise it tests whether Black is checkmated and returns 10000 if so. Both
  tests come before every other term of the score.
\<close>

theorem evaluate_position_checkmate:
  "(is_checkmate s WHITE = Inr (True, s) \<longrightarrow> evaluate_position s = Inr (- 10000, s)) \<and>
   (is_checkmate s WHITE = Inr (False, s) \<and> is_checkmate s BLACK = Inr (True, s)
      \<longrightarrow> evaluate_position s = Inr (10000, s))"
  by (simp add: evaluate_position_mate)

lemma white_mated_game_mate: "is_checkmate white_mated_game WHITE = Inr (True, white_mated_game)"
proof -
  let ?k = "\<lparr>level = 0, rank = 7, file = 0\<rparr>"
  have king: "find_king white_mated_game WHITE = Some ?k"
    by (rule find_king_unique)
       (auto simp: white_mated_game_def empty_board_def cell_of_def is_valid_position_def
             split: if_splits)
  have "case get_valid_moves white_mated_game (position_of (0, 5, 1)) of
          Inr ms \<Rightarrow> list_ex (\<lambda>m. to_pos m = ?k) ms | Inl e \<Rightarrow> False"
    by code_simp
  then obtain ms m where ms: "get_valid_moves white_mated_game (position_of (0, 5, 1)) = Inr ms"
      "m \<in> set ms" "to_pos m = ?k"
    by (auto simp: list_ex_iff split: sum.splits)
  have chk: "is_check white_mated_game WHITE = Inr True"
    by (rule is_check_by[where cl = "(0, 5, 1)" and piece = "\<lparr>ptype = KNIGHT, color = BLACK\<rparr>",
                         OF king _ _ _ ms])
       (simp_all add: set_all_cells white_mated_game_def empty_board_def other_color_def)
  have none: "get_valid_moves white_mated_game (position_of cl) = Inr []"
    if "board white_mated_game cl = Some piece" "color piece = WHITE" for cl piece
  proof -
    from that have "cl = (0, 7, 0) \<or> cl = (0, 7, 1) \<or> cl = (0, 6, 0) \<or> cl = (0, 6, 1)"
      by (auto simp: white_mated_game_def empty_board_def split: if_splits)
    moreover have "get_valid_moves white_mated_game (position_of (0, 7, 0)) = Inr []"
      "get_valid_moves white_mated_game (position_of (0, 7, 1)) = Inr []"
      "get_valid_moves white_mated_game (position_of (0, 6, 0)) = Inr []"
      "get_valid_moves white_mated_game (position_of (0, 6, 1)) = Inr []"
      by code_simp+
    ultimately show ?thesis by blast
  qed
  show ?thesis by (rule is_checkmate_no_moves[OF chk]) (rule none)
qed

lemma black_mated_game_mate: "is_checkmate black_mated_game BLACK = Inr (True, black_mated_game)"
proof -
  let ?k = "\<lparr>level = 0, rank = 0, file = 0\<rparr>"
  have king: "find_king black_mated_game BLACK = Some ?k"
    by (rule find_king_unique)
       (auto simp: black_mated_game_def empty_board_def cell_of_def is_valid_position_def
             split: if_splits)
  have "case get_valid_moves black_mated_game (position_of (0, 2, 1)) of
          Inr ms \<Rightarrow> list_ex (\<lambda>m. to_pos m = ?k) ms | Inl e \<Rightarrow> False"
    by code_simp
  then obtain ms m where ms: "get_valid_moves black_mated_game (position_of (0, 2, 1)) = Inr ms"
      "m \<in> set ms" "to_pos m = ?k"
    by (auto simp: list_ex_iff split: sum.splits)
  have chk: "is_check black_mated_game BLACK = Inr True"
    by (rule is_check_by[where cl = "(0, 2, 1)" and piece = "\<lparr>ptype = KNIGHT, color = WHITE\<rparr>",
                         OF king _ _ _ ms])
       (simp_all add: set_all_cells black_mated_game_def empty_board_def other_color_def)
  have none: "get_valid_moves black_mated_game (position_of cl) = Inr []"
    if "board black_mated_game cl = Some piece" "color piece = BLACK" for cl piece
  proof -
    from that have "cl = (0, 0, 0) \<or> cl = (0, 0, 1) \<or> cl = (0, 1, 0) \<or> cl = (0, 1, 1)"
      by (auto simp: black_mated_game_def empty_board_def split: if_splits)
    moreover have "get_valid_moves black_mated_game (position_of (0, 0, 0)) = Inr []"
      "get_valid_moves black_mated_game (position_of (0, 0, 1)) = Inr []"
      "get_valid_moves black_mated_game (position_of (0, 1, 0)) = Inr []"
      "get_valid_moves black_mated_game (position_of (0, 1, 1)) = Inr []"
      by code_simp+
    ultimately show ?thesis by blast
  qed
  show ?thesis by (rule is_checkmate_no_moves[OF chk]) (rule none)
qed

lemma black_mated_game_white: "is_checkmate black_mated_game WHITE = Inr (False, black_mated_game)"
proof -
  have "is_check black_mated_game WHITE = Inr False"
    by (rule is_check_no_king_aux) (simp add: black_mated_game_def empty_board_def)
  then show ?thesis by (rule is_checkmate_not_in_check)
qed

theorem evaluate_position_checkmate_witness:
  "is_checkmate white_mated_game WHITE = Inr (True, white_mated_game) \<and>
   evaluate_position white_mated_game = Inr (- 10000, white_mated_game) \<and>
   is_checkmate black_mated_game WHITE = Inr (False, black_mated_game) \<and>
   is_checkmate black_mated_game BLACK = Inr (True, black_mated_game) \<and>
   evaluate_position black_mated_game = Inr (10000, black_mated_game)"
  using white_mated_game_mate black_mated_game_white black_mated_game_mate
    evaluate_position_checkmate[of white_mated_game]
    evaluate_position_checkmate[of black_mated_game] by blast

text \<open>
  C8. When no cell of the three levels holds a king of the colour, \<open>is_check\<close>
  returns \<open>False\<close>; it does not raise.
\<close>

theorem is_check_without_king:
  assumes "\<And>l r f. l < 3 \<Longrightarrow> r < 8 \<Longrightarrow> f < 8 \<Longrightarrow>
             board s (l, r, f) \<noteq> Some \<lparr>ptype = KING, color = c\<rparr>"
  shows "is_check s c = Inr False"
  using assms by (rule is_check_no_king_aux)

theorem is_check_without_king_witness:
  "\<not> (\<exists>l r f. l < 3 \<and> r < 8 \<and> f < 8 \<and>
        board white_mated_game (l, r, f) = Some \<lparr>ptype = KING, color = BLACK\<rparr>) \<and>
   is_check white_mated_game BLACK = Inr False"
proof -
  have h: "board white_mated_game (l, r, f) \<noteq> Some \<lparr>ptype = KING, color = BLACK\<rparr>" for l r f
    by (simp add: white_mated_game_def empty_board_def)
  from is_check_without_king[of white_mated_game BLACK, OF h] h show ?thesis by blast
qed

text \<open>
  C10. For an in-bounds position \<open>get_valid_moves\<close> returns a list, and every move in
  it starts at that position, ends at an in-bounds position, and ends on a cell that is
  empty or holds a piece of the other colour than the piece that moves. That covers the
  vertical moves of the rook, whose destination is read without a bounds test.
\<close>

theorem get_valid_moves_in_bounds:
  assumes "is_valid_position pos"
  shows "\<exists>ms. get_valid_moves s pos = Inr ms \<and>
           (\<forall>m\<in>set ms.
              from_pos m = pos \<and> is_valid_position (to_pos m) \<and>
              (get_piece s (to_pos m) = Inr None \<or>
               (\<exists>piece t. get_piece s pos = Inr (Some piece) \<and>
                          get_piece s (to_pos m) = Inr (Some t) \<and>
                          color t = other_color (color piece))))"
proof (cases "board s (cell_of pos)")
  case None
  then show ?thesis using assms by (simp add: valid_moves_empty get_piece_valid)
next
  case (Some piece)
  then have gp: "get_piece s pos = Inr (Some piece)" using assms by (simp add: get_piece_valid)
  from valid_moves_ok[OF gp] obtain ms where
    ms: "get_valid_moves s pos = Inr ms" "\<forall>m\<in>set ms. move_fact s pos piece m" by blast
  have "from_pos m = pos \<and> is_valid_position (to_pos m) \<and>
              (get_piece s (to_pos m) = Inr None \<or>
               (\<exists>piece t. get_piece s pos = Inr (Some piece) \<and>
                          get_piece s (to_pos m) = Inr (Some t) \<and>
                          color t = other_color (color piece)))" if "m \<in> set ms" for m
  proof -
    from ms(2) that have mf: "move_fact s pos piece m" by blast
    then have f: "from_pos m = pos" and v: "is_valid_position (to_pos m)"
      and t: "target_ok s piece (to_pos m)"
      using assms by (auto simp: move_fact_def pawn_fact_def plain_fact_def split: if_splits)
    have "color t = other_color (color piece)" if "color t \<noteq> color piece" for t
      using that by (cases "color t"; cases "color piece") (simp_all add: other_color_def)
    then show ?thesis using f v t gp
      by (auto simp: target_ok_def split: sum.splits option.splits)
  qed
  then show ?thesis using ms(1) by blast
qed

theorem get_valid_moves_in_bounds_witness:
  "is_valid_position knight_home \<and>
   (\<exists>ms. get_valid_moves reset knight_home = Inr ms \<and> length ms = 4 \<and>
      (\<forall>m\<in>set ms.
              from_pos m = knight_home \<and> is_valid_position (to_pos m) \<and>
              (get_piece reset (to_pos m) = Inr None \<or>
               (\<exists>piece t. get_piece reset knight_home = Inr (Some piece) \<and>
                          get_piece reset (to_pos m) = Inr (Some t) \<and>
                          color t = other_color (color piece)))))"
proof -
  have v: "is_valid_position knight_home" by code_simp
  have "map_sum id length (get_valid_moves reset knight_home) = Inr 4" by code_simp
  then have "\<And>ms. get_valid_moves reset knight_home = Inr ms \<Longrightarrow> length ms = 4" by simp
  then show ?thesis using get_valid_moves_in_bounds[OF v, of reset] v by blast
qed

text \<open>
  C3. From the starting position, for every depth handed to \<open>minimax\<close> below 3 (that
  is \<open>max_depth\<close> 1, 2 or 3), for either colour asked for and for every order of the
  root moves that \<open>random.shuffle\<close> can leave, \<open>get_best_move\<close> returns, and the
  move and the value it chooses are those of exhaustive minimax over the same moves in
  the same order.
\<close>

theorem pruned_search_is_exhaustive:
  assumes "depth < 3" and "\<And>ms. set (order ms) \<subseteq> set ms"
  shows "get_best_move reset depth order color_arg =
           Inr (exhaustive_best_move reset depth order color_arg)"
proof -
  define c where "c = (case color_arg of None \<Rightarrow> current_player reset | Some c' \<Rightarrow> c')"
  have "pawn_room (Suc depth) reset" "pawn_room depth reset"
    using assms(1) by (auto intro: pawn_room_mono[OF pawn_room_reset])
  then have "(current_player reset = c \<and> pawn_room (Suc depth) reset) \<or>
             (current_player reset \<noteq> c \<and> move_history reset = [] \<and> pawn_room depth reset)"
    by (simp add: reset_state)
  with c_def assms(2)[of "all_moves reset c"] show ?thesis by (rule get_best_move_sound)
qed

theorem pruned_search_is_exhaustive_witness:
  "(2 :: nat) < 3 \<and>
   \<not> (\<exists>ms :: Move list. \<not> set (rev ms) \<subseteq> set ms) \<and>
   get_best_move reset 2 rev None = Inr (exhaustive_best_move reset 2 rev None)"
proof -
  have h: "set (rev ms) \<subseteq> set ms" for ms :: "Move list" by simp
  have d: "(2 :: nat) < 3" by simp
  from pruned_search_is_exhaustive[OF d h, of None] h d show ?thesis by blast
qed

text \<open>
  C4. When the flag \<open>maximizing\<close> names the side to move and no pawn can reach its
  last rank within \<open>depth\<close> moves, \<open>minimax\<close> returns for all bounds, and the game it
  leaves is the game it was given: board, side to move and history. That includes the
  return at \<open>beta <= alpha\<close>.
\<close>

theorem minimax_leaves_game:
  assumes "search_ready depth game maximizing"
  shows "\<exists>v. minimax depth game alpha beta maximizing = Inr (v, game)"
  using minimax_sound[OF assms, of alpha beta] by blast

theorem minimax_leaves_game_witness:
  "search_ready 3 reset True \<and> (\<exists>v. minimax 3 reset NegInf PosInf True = Inr (v, reset))"
proof -
  have r: "search_ready 3 reset True"
    using pawn_room_mono[OF pawn_room_reset, of 3]
    by (simp add: search_ready_def side_of_def reset_state)
  from minimax_leaves_game[OF r, of NegInf PosInf] r show ?thesis by blast
qed

text \<open>
  Two searches after which the game is not the one given. In \<open>black_promotion_game\<close>
  the flag names the side to move; the first move tried promotes the pawn, the bounds
  end the search at once (\<open>beta <= alpha\<close>), and the cell of the pawn holds a queen
  afterwards. In \<open>rook_moved_game\<close> Black is to move and \<open>maximizing\<close> is true:
  \<open>make_move\<close> refuses the white move, \<open>undo_move\<close> then takes back the move in
  the history, which has one entry before and none after, and White is to move.
\<close>

theorem minimax_changes_game_counterexample:
  "board black_promotion_game (0, 1, 0) = Some \<lparr>ptype = PAWN, color = BLACK\<rparr> \<and>
   cell_after (minimax 1 black_promotion_game PosInf PosInf False) (0, 1, 0) =
     Inr (Some \<lparr>ptype = QUEEN, color = BLACK\<rparr>) \<and>
   length (move_history rook_moved_game) = 1 \<and>
   current_player rook_moved_game = BLACK \<and>
   history_length_after (minimax 1 rook_moved_game NegInf NegInf True) = Inr 0 \<and>
   player_after (minimax 1 rook_moved_game NegInf NegInf True) = Inr WHITE"
  using promotion_search_trace wrong_side_search_trace
  by (simp add: black_promotion_game_def rook_moved_game_def empty_board_def)




end
